theory Spec2Isabelle
  imports Main
begin

section \<open>JavaScript strings\<close>

text \<open>
  A JavaScript string is a sequence of UTF-16 code units; \<open>length\<close> counts code units.
  A code unit is modelled as a natural number, so that the sentinel code points
  U+FFFE and U+FFFF can be written down. \<open>str\<close> embeds an ASCII literal.
\<close>

type_synonym jsstring = "nat list"

definition str :: "string \<Rightarrow> jsstring" where
  "str s = map of_char s"

text \<open>The characters removed by \<open>String.prototype.trim\<close> and matched by \<open>\s\<close>:
  the WhiteSpace and LineTerminator productions of ECMAScript.\<close>

definition isWhiteSpace :: "nat \<Rightarrow> bool" where
  "isWhiteSpace c \<longleftrightarrow>
     (9 \<le> c \<and> c \<le> 13) \<or> c = 32 \<or> c = 160 \<or> c = 5760 \<or> (8192 \<le> c \<and> c \<le> 8202) \<or>
     c = 8232 \<or> c = 8233 \<or> c = 8239 \<or> c = 8287 \<or> c = 12288 \<or> c = 65279"

definition trimStart :: "jsstring \<Rightarrow> jsstring" where
  "trimStart s = dropWhile isWhiteSpace s"

definition trimEnd :: "jsstring \<Rightarrow> jsstring" where
  "trimEnd s = rev (dropWhile isWhiteSpace (rev s))"

definition trim :: "jsstring \<Rightarrow> jsstring" where
  "trim s = trimEnd (trimStart s)"

definition startsWith :: "jsstring \<Rightarrow> jsstring \<Rightarrow> bool" where
  "startsWith s p \<longleftrightarrow> take (length p) s = p"

definition endsWith :: "jsstring \<Rightarrow> jsstring \<Rightarrow> bool" where
  "endsWith s p \<longleftrightarrow> length p \<le> length s \<and> drop (length s - length p) s = p"

text \<open>\<open>s.slice(1, -1)\<close>: from index 1 up to, not including, the last code unit.\<close>

definition slice_1_m1 :: "jsstring \<Rightarrow> jsstring" where
  "slice_1_m1 s = take (length s - 1 - 1) (drop 1 s)"

text \<open>\<open>parts.join(sep)\<close>.\<close>

fun join :: "jsstring \<Rightarrow> jsstring list \<Rightarrow> jsstring" where
  "join sep [] = []"
| "join sep [x] = x"
| "join sep (x # y # ys) = x @ sep @ join sep (y # ys)"

text \<open>\<open>s.split('\n')\<close>: the pieces between line feeds; the empty string gives one
  empty piece.\<close>

fun split_lines :: "jsstring \<Rightarrow> jsstring list" where
  "split_lines [] = [[]]"
| "split_lines (c # cs) =
     (if c = 10 then [] # split_lines cs
      else (case split_lines cs of l # ls \<Rightarrow> (c # l) # ls | [] \<Rightarrow> [[c]]))"

section \<open>Errors and the syntax tree\<close>

text \<open>
  Every failure of the parser is a JavaScript \<open>Error\<close>; the kinds are told apart by the
  message: \<open>Invalid input: ...\<close>, \<open>Input too large: ...\<close> and
  \<open>TinyHTML Parse Error at line L, column C: ...\<close>.
\<close>

datatype error =
    InvalidInput string
  | InputTooLarge string
  | ParseError nat nat string

datatype attr_value = VString jsstring | VBoolean bool

datatype node =
    Doctype (doctype: jsstring)
  | Tag (name: jsstring) (classes: "jsstring list") (tag_id: "jsstring option")
        (attributes: "(jsstring \<times> attr_value) list") (children: "node list")
        (selfClosing: bool)
  | Text (content: jsstring)

section \<open>The parser: state and primitives\<close>

text \<open>
  The fields of \<open>TinyHTMLParser\<close> that a parse reads or writes. \<open>indentStack\<close> is
  never read; \<open>disposed\<close> is false from construction until \<open>dispose()\<close>, and the
  state below is that of a parser which has not been disposed.
\<close>

record parser =
  input :: jsstring
  position :: nat
  line :: nat
  column :: nat

definition constructor :: "jsstring \<Rightarrow> error + parser" where
  "constructor inp =
     (if inp = [] then Inl (InvalidInput ''Invalid input: must be a non-empty string'')
      else if length inp > 10 * 1024 * 1024 then
        Inl (InputTooLarge ''Input too large: file size exceeds 10MB limit. Consider splitting into smaller files.'')
      else if 0 \<in> set inp \<or> 65534 \<in> set inp \<or> 65535 \<in> set inp then
        Inl (InvalidInput ''Invalid input: contains null bytes or invalid Unicode characters'')
      else Inr \<lparr>input = trim inp, position = 0, line = 1, column = 1\<rparr>)"

text \<open>\<open>this.input[this.position] || ''\<close>: the code unit as a one-element string, or
  the empty string past the end.\<close>

definition peek :: "parser \<Rightarrow> jsstring" where
  "peek s = take 1 (drop (position s) (input s))"

definition advance :: "parser \<Rightarrow> error + (nat \<times> parser)" where
  "advance s =
     (if position s \<ge> length (input s) then
        Inl (ParseError (line s) (column s) ''Unexpected end of input'')
      else
        let c = input s ! position s in
        Inr (c, if c = 10
                then s\<lparr>position := position s + 1, line := line s + 1, column := 1\<rparr>
                else s\<lparr>position := position s + 1, column := column s + 1\<rparr>))"

text \<open>The statement \<open>if (this.peek() === '\n') this.advance();\<close>.\<close>

definition skipNewline :: "parser \<Rightarrow> error + parser" where
  "skipNewline s =
     (if peek s = [10] then (case advance s of Inl e \<Rightarrow> Inl e | Inr (c, s') \<Rightarrow> Inr s')
      else Inr s)"

function getIndentLevel_loop :: "jsstring \<Rightarrow> nat \<Rightarrow> nat \<Rightarrow> nat" where
  "getIndentLevel_loop inp level i =
     (if i < length inp \<and> inp ! i = 32 then getIndentLevel_loop inp (level + 1) (i + 1)
      else level)"
  by pat_completeness auto
termination
  by (relation "measure (\<lambda>(inp, level, i). length inp - i)") auto

declare getIndentLevel_loop.simps [simp del]

definition getIndentLevel :: "parser \<Rightarrow> nat" where
  "getIndentLevel s = getIndentLevel_loop (input s) 0 (position s)"

lemma advance_Inr:
  "advance s = Inr (c, s') \<Longrightarrow>
     position s < length (input s) \<and> position s' = position s + 1 \<and> input s' = input s \<and>
     c = input s ! position s"
  by (auto simp: advance_def Let_def split: if_splits)

text \<open>The loop \<open>while (this.position < this.input.length && this.peek() === ' ') this.advance();\<close>.\<close>

function skipIndentation :: "parser \<Rightarrow> error + parser" where
  "skipIndentation s =
     (if position s < length (input s) \<and> peek s = [32] then
        (case advance s of Inl e \<Rightarrow> Inl e | Inr (c, s') \<Rightarrow> skipIndentation s')
      else Inr s)"
  by pat_completeness auto
termination
  by (relation "measure (\<lambda>s. length (input s) - position s)")
     (auto dest!: advance_Inr)

function readLine_loop :: "jsstring \<Rightarrow> parser \<Rightarrow> error + (jsstring \<times> parser)" where
  "readLine_loop result s =
     (if position s < length (input s) \<and> peek s \<noteq> [10] then
        (case advance s of Inl e \<Rightarrow> Inl e | Inr (c, s') \<Rightarrow> readLine_loop (result @ [c]) s')
      else Inr (result, s))"
  by pat_completeness auto
termination
  by (relation "measure (\<lambda>(result, s). length (input s) - position s)")
     (auto dest!: advance_Inr)

declare skipIndentation.simps [simp del]
declare readLine_loop.simps [simp del]

definition readLine :: "parser \<Rightarrow> error + (jsstring \<times> parser)" where
  "readLine s = readLine_loop [] s"

section \<open>The tag-head grammar: \<open>parseTagLine\<close>\<close>

text \<open>
  \<open>parseTagLine\<close> works on one line with a local cursor \<open>pos\<close> and local closures
  \<open>peek\<close>, \<open>advance\<close>, \<open>skipWhitespace\<close> and \<open>readIdentifier\<close>; they are the
  \<open>line_\<close> functions below. The class methods \<open>readIdentifier\<close> and \<open>readString\<close> of the
  parser (the ones with the length limits and the unterminated-string error) have no
  caller, and the local constant \<open>maxAttributes\<close> is never read.
\<close>

record tagline =
  tl_name :: jsstring
  tl_classes :: "jsstring list"
  tl_id :: "jsstring option"
  tl_attributes :: "(jsstring \<times> attr_value) list"
  tl_content :: "jsstring option"

definition maxAttributes :: nat where
  "maxAttributes = 50"

text \<open>An unanchored character-class test such as \<open>/[ \t]/.test(x)\<close>: some code unit
  of \<open>x\<close> is in the class.\<close>

definition test_class :: "(nat \<Rightarrow> bool) \<Rightarrow> jsstring \<Rightarrow> bool" where
  "test_class P x = list_ex P x"

definition isSpaceOrTab :: "nat \<Rightarrow> bool" where
  "isSpaceOrTab c \<longleftrightarrow> c = 32 \<or> c = 9"

text \<open>The class \<open>[a-zA-Z0-9_-]\<close>.\<close>

definition isIdentChar :: "nat \<Rightarrow> bool" where
  "isIdentChar c \<longleftrightarrow>
     (97 \<le> c \<and> c \<le> 122) \<or> (65 \<le> c \<and> c \<le> 90) \<or> (48 \<le> c \<and> c \<le> 57) \<or> c = 95 \<or> c = 45"

definition isAsciiLetter :: "nat \<Rightarrow> bool" where
  "isAsciiLetter c \<longleftrightarrow> (97 \<le> c \<and> c \<le> 122) \<or> (65 \<le> c \<and> c \<le> 90)"

text \<open>\<open>line[pos + 0] || ''\<close>.\<close>

definition line_peek :: "jsstring \<Rightarrow> nat \<Rightarrow> jsstring" where
  "line_peek ln pos = take 1 (drop pos ln)"

text \<open>\<open>line[pos++]\<close>. Past the end the source reads \<open>undefined\<close>, which \<open>+=\<close> appends
  as the text \<open>undefined\<close> and which is equal to no result of \<open>peek\<close>; every call below
  is behind a test that the cursor is inside the line.\<close>

definition line_advance :: "jsstring \<Rightarrow> nat \<Rightarrow> jsstring \<times> nat" where
  "line_advance ln pos = (if pos < length ln then [ln ! pos] else str ''undefined'', pos + 1)"

function line_skipWhitespace :: "jsstring \<Rightarrow> nat \<Rightarrow> nat" where
  "line_skipWhitespace ln pos =
     (if pos < length ln \<and> test_class isSpaceOrTab (line_peek ln pos)
      then line_skipWhitespace ln (pos + 1) else pos)"
  by pat_completeness auto
termination
  by (relation "measure (\<lambda>(ln, pos). length ln - pos)") auto

function line_readIdentifier_loop :: "jsstring \<Rightarrow> jsstring \<Rightarrow> nat \<Rightarrow> jsstring \<times> nat" where
  "line_readIdentifier_loop ln result pos =
     (if pos < length ln \<and> test_class isIdentChar (line_peek ln pos)
      then line_readIdentifier_loop ln (result @ fst (line_advance ln pos))
             (snd (line_advance ln pos))
      else (result, pos))"
  by pat_completeness auto
termination
  by (relation "measure (\<lambda>(ln, result, pos). length ln - pos)") (auto simp: line_advance_def)

definition line_readIdentifier :: "jsstring \<Rightarrow> nat \<Rightarrow> jsstring \<times> nat" where
  "line_readIdentifier ln pos = line_readIdentifier_loop ln [] pos"

declare line_skipWhitespace.simps [simp del]
declare line_readIdentifier_loop.simps [simp del]

lemma line_peek_eq_singleton:
  "line_peek ln pos = [c] \<longleftrightarrow> pos < length ln \<and> ln ! pos = c"
proof (cases "pos < length ln")
  case True
  then have "drop pos ln = ln ! pos # drop (Suc pos) ln"
    by (simp add: Cons_nth_drop_Suc)
  with True show ?thesis by (simp add: line_peek_def)
next
  case False
  then show ?thesis by (simp add: line_peek_def)
qed

lemma line_readIdentifier_loop_pos:
  "line_readIdentifier_loop ln result pos = (r, pos') \<Longrightarrow>
     pos \<le> pos' \<and> length r = length result + (pos' - pos)"
proof (induction ln result pos rule: line_readIdentifier_loop.induct)
  case (1 ln result pos)
  show ?case
  proof (cases "pos < length ln \<and> test_class isIdentChar (line_peek ln pos)")
    case True
    with "1.prems" have
      "line_readIdentifier_loop ln (result @ fst (line_advance ln pos))
         (snd (line_advance ln pos)) = (r, pos')"
      by (subst (asm) line_readIdentifier_loop.simps) simp
    from "1.IH" [OF True this] True show ?thesis
      by (auto simp: line_advance_def)
  next
    case False
    with "1.prems" show ?thesis
      by (subst (asm) line_readIdentifier_loop.simps) auto
  qed
qed

lemma line_readIdentifier_pos:
  "line_readIdentifier ln pos = (r, pos') \<Longrightarrow> pos \<le> pos' \<and> (r \<noteq> [] \<longrightarrow> pos < pos')"
  using line_readIdentifier_loop_pos [of ln "[]" pos r pos']
  by (cases "pos < pos'") (auto simp: line_readIdentifier_def)

lemma line_skipWhitespace_pos: "pos \<le> line_skipWhitespace ln pos"
proof (induction ln pos rule: line_skipWhitespace.induct)
  case (1 ln pos)
  show ?case
  proof (cases "pos < length ln \<and> test_class isSpaceOrTab (line_peek ln pos)")
    case True
    from "1.IH" [OF True] True show ?thesis
      by (subst line_skipWhitespace.simps) simp
  next
    case False
    then show ?thesis
      by (subst line_skipWhitespace.simps) auto
  qed
qed

text \<open>The loop \<open>while (peek() === '.') { advance(); classes.push(readIdentifier()); }\<close>.\<close>

function classes_loop :: "jsstring \<Rightarrow> jsstring list \<Rightarrow> nat \<Rightarrow> jsstring list \<times> nat" where
  "classes_loop ln cls pos =
     (if line_peek ln pos = [46] then
        (case line_readIdentifier ln (snd (line_advance ln pos)) of
           (c, pos') \<Rightarrow> classes_loop ln (cls @ [c]) pos')
      else (cls, pos))"
  by pat_completeness auto
termination
  by (relation "measure (\<lambda>(ln, cls, pos). length ln - pos)")
     (auto simp: line_advance_def line_peek_eq_singleton dest!: line_readIdentifier_pos [OF sym])

text \<open>The body of a quoted attribute value, lines 232 to 241: a backslash is dropped
  and the code unit after it, if any, is taken literally.\<close>

function quoted_loop :: "jsstring \<Rightarrow> jsstring \<Rightarrow> jsstring \<Rightarrow> nat \<Rightarrow> jsstring \<times> nat" where
  "quoted_loop ln quote val pos =
     (if pos < length ln \<and> line_peek ln pos \<noteq> quote then
        (if line_peek ln pos = [92] then
           (let pos1 = snd (line_advance ln pos) in
            if pos1 < length ln
            then quoted_loop ln quote (val @ fst (line_advance ln pos1)) (snd (line_advance ln pos1))
            else quoted_loop ln quote val pos1)
         else quoted_loop ln quote (val @ fst (line_advance ln pos)) (snd (line_advance ln pos)))
      else (val, pos))"
  by pat_completeness auto
termination
  by (relation "measure (\<lambda>(ln, quote, val, pos). length ln - pos)") (auto simp: line_advance_def)

text \<open>An unquoted value runs to the next space, tab or \<open>]\<close>.\<close>

function unquoted_loop :: "jsstring \<Rightarrow> jsstring \<Rightarrow> nat \<Rightarrow> jsstring \<times> nat" where
  "unquoted_loop ln val pos =
     (if pos < length ln \<and> line_peek ln pos \<noteq> [93] \<and> line_peek ln pos \<noteq> [32] \<and>
         line_peek ln pos \<noteq> [9]
      then unquoted_loop ln (val @ fst (line_advance ln pos)) (snd (line_advance ln pos))
      else (val, pos))"
  by pat_completeness auto
termination
  by (relation "measure (\<lambda>(ln, val, pos). length ln - pos)") (auto simp: line_advance_def)

declare classes_loop.simps [simp del]
declare quoted_loop.simps [simp del]
declare unquoted_loop.simps [simp del]

lemma quoted_loop_snd: "pos \<le> snd (quoted_loop ln quote val pos)"
proof (induction ln quote val pos rule: quoted_loop.induct)
  case (1 ln quote val pos)
  then show ?case
    by (subst quoted_loop.simps) (auto simp: Let_def line_advance_def)
qed

lemma quoted_loop_pos: "quoted_loop ln quote val pos = (v, pos') \<Longrightarrow> pos \<le> pos'"
  using quoted_loop_snd [of pos ln quote val] by simp

lemma unquoted_loop_snd: "pos \<le> snd (unquoted_loop ln val pos)"
proof (induction ln val pos rule: unquoted_loop.induct)
  case (1 ln val pos)
  then show ?case
    by (subst unquoted_loop.simps) (auto simp: line_advance_def)
qed

lemma unquoted_loop_pos: "unquoted_loop ln val pos = (v, pos') \<Longrightarrow> pos \<le> pos'"
  using unquoted_loop_snd [of pos ln val] by simp

text \<open>Lines 228 to 249: the value after \<open>=\<close>, quoted or not. A quoted value that is
  not closed on the line ends with the line; the closing quote is skipped only if it
  is there.\<close>

definition readAttrValue :: "jsstring \<Rightarrow> nat \<Rightarrow> jsstring \<times> nat" where
  "readAttrValue ln pos =
     (if line_peek ln pos = [34] \<or> line_peek ln pos = [39] then
        (let quote = fst (line_advance ln pos) in
         case quoted_loop ln quote [] (snd (line_advance ln pos)) of
           (v, pos1) \<Rightarrow>
             (v, if line_peek ln pos1 = quote then snd (line_advance ln pos1) else pos1))
      else unquoted_loop ln [] pos)"

lemma readAttrValue_pos: "readAttrValue ln pos = (v, pos') \<Longrightarrow> pos \<le> pos'"
  by (auto simp: readAttrValue_def Let_def line_advance_def
           split: if_splits prod.splits dest!: quoted_loop_pos unquoted_loop_pos)

text \<open>The entries of one attribute block, lines 216 to 257. The number of entries is
  not counted.\<close>

function attrs_loop ::
  "jsstring \<Rightarrow> (jsstring \<times> attr_value) list \<Rightarrow> nat \<Rightarrow> (jsstring \<times> attr_value) list \<times> nat" where
  "attrs_loop ln attrs pos =
     (if pos < length ln \<and> line_peek ln pos \<noteq> [93] then
        (case line_readIdentifier ln (line_skipWhitespace ln pos) of
           (attrName, pos2) \<Rightarrow>
             if attrName = [] then (attrs, pos2)
             else
               (let pos3 = line_skipWhitespace ln pos2 in
                if line_peek ln pos3 = [61] then
                  (case readAttrValue ln (line_skipWhitespace ln (snd (line_advance ln pos3))) of
                     (v, pos4) \<Rightarrow>
                       attrs_loop ln (attrs @ [(attrName, VString v)]) (line_skipWhitespace ln pos4))
                else attrs_loop ln (attrs @ [(attrName, VBoolean True)])
                       (line_skipWhitespace ln pos3)))
      else (attrs, pos))"
  by pat_completeness auto
termination
proof (relation "measure (\<lambda>(ln, attrs, pos). length ln - pos)")
  show "wf (measure (\<lambda>(ln, attrs, pos). length ln - pos))"
    by simp
next
  fix ln :: jsstring and attrs :: "(jsstring \<times> attr_value) list" and pos x attrName pos2 pos3 xa v pos4
  assume a: "pos < length ln \<and> line_peek ln pos \<noteq> [93]"
    "(attrName, pos2) = line_readIdentifier ln (line_skipWhitespace ln pos)"
    "attrName \<noteq> []" "pos3 = line_skipWhitespace ln pos2"
    "(v, pos4) = readAttrValue ln (line_skipWhitespace ln (snd (line_advance ln pos3)))"
  have "pos \<le> line_skipWhitespace ln pos"
    by (rule line_skipWhitespace_pos)
  moreover have "line_skipWhitespace ln pos < pos2"
    using line_readIdentifier_pos [OF a(2) [symmetric]] a(3) by simp
  moreover have "pos2 \<le> pos3"
    using a(4) line_skipWhitespace_pos by simp
  moreover have "pos3 + 1 \<le> line_skipWhitespace ln (snd (line_advance ln pos3))"
    using line_skipWhitespace_pos [of "pos3 + 1" ln] by (simp add: line_advance_def)
  moreover have "line_skipWhitespace ln (snd (line_advance ln pos3)) \<le> pos4"
    using readAttrValue_pos [OF a(5) [symmetric]] .
  moreover have "pos4 \<le> line_skipWhitespace ln pos4"
    by (rule line_skipWhitespace_pos)
  ultimately have "pos < line_skipWhitespace ln pos4"
    by linarith
  then show "((ln, attrs @ [(attrName, VString v)], line_skipWhitespace ln pos4),
               ln, attrs, pos) \<in> measure (\<lambda>(ln, attrs, pos). length ln - pos)"
    using a(1) by (simp add: diff_less_mono2)
next
  fix ln :: jsstring and attrs :: "(jsstring \<times> attr_value) list" and pos x attrName pos2 pos3
  assume a: "pos < length ln \<and> line_peek ln pos \<noteq> [93]"
    "(attrName, pos2) = line_readIdentifier ln (line_skipWhitespace ln pos)"
    "attrName \<noteq> []" "pos3 = line_skipWhitespace ln pos2"
  have "pos \<le> line_skipWhitespace ln pos"
    by (rule line_skipWhitespace_pos)
  moreover have "line_skipWhitespace ln pos < pos2"
    using line_readIdentifier_pos [OF a(2) [symmetric]] a(3) by simp
  moreover have "pos2 \<le> pos3"
    using a(4) line_skipWhitespace_pos by simp
  moreover have "pos3 \<le> line_skipWhitespace ln pos3"
    by (rule line_skipWhitespace_pos)
  ultimately have "pos < line_skipWhitespace ln pos3"
    by linarith
  then show "((ln, attrs @ [(attrName, VBoolean True)], line_skipWhitespace ln pos3),
               ln, attrs, pos) \<in> measure (\<lambda>(ln, attrs, pos). length ln - pos)"
    using a(1) by (simp add: diff_less_mono2)
qed

declare attrs_loop.simps [simp del]

lemma attrs_loop_snd: "pos \<le> snd (attrs_loop ln attrs pos)"
proof (induction ln attrs pos rule: attrs_loop.induct)
  case (1 ln attrs pos)
  show ?case
  proof (cases "pos < length ln \<and> line_peek ln pos \<noteq> [93]")
    case False
    then show ?thesis
      by (subst attrs_loop.simps) auto
  next
    case True
    obtain attrName pos2 where id: "line_readIdentifier ln (line_skipWhitespace ln pos) = (attrName, pos2)"
      by (cases "line_readIdentifier ln (line_skipWhitespace ln pos)")
    have p2: "pos \<le> pos2"
      using line_readIdentifier_pos [OF id] line_skipWhitespace_pos [of pos ln] by simp
    define pos3 where "pos3 = line_skipWhitespace ln pos2"
    have p3: "pos2 \<le> pos3"
      unfolding pos3_def by (rule line_skipWhitespace_pos)
    show ?thesis
    proof (cases "attrName = []")
      case True
      with \<open>pos < length ln \<and> line_peek ln pos \<noteq> [93]\<close> id p2 show ?thesis
        by (subst attrs_loop.simps) simp
    next
      case nonempty: False
      show ?thesis
      proof (cases "line_peek ln pos3 = [61]")
        case eq: True
        obtain v pos4 where
          val: "readAttrValue ln (line_skipWhitespace ln (snd (line_advance ln pos3))) = (v, pos4)"
          by (cases "readAttrValue ln (line_skipWhitespace ln (snd (line_advance ln pos3)))")
        have "pos3 \<le> pos4"
          using readAttrValue_pos [OF val] line_skipWhitespace_pos [of "pos3 + 1" ln]
          by (simp add: line_advance_def)
        moreover have "line_skipWhitespace ln pos4
            \<le> snd (attrs_loop ln (attrs @ [(attrName, VString v)]) (line_skipWhitespace ln pos4))"
          using "1.IH"(1) [OF True id [symmetric] nonempty pos3_def eq val [symmetric]] .
        ultimately have
          "pos \<le> snd (attrs_loop ln (attrs @ [(attrName, VString v)]) (line_skipWhitespace ln pos4))"
          using p2 p3 line_skipWhitespace_pos [of pos4 ln] by linarith
        with True id nonempty eq val show ?thesis
          by (subst attrs_loop.simps) (simp add: Let_def pos3_def [symmetric])
      next
        case neq: False
        have "line_skipWhitespace ln pos3
            \<le> snd (attrs_loop ln (attrs @ [(attrName, VBoolean True)]) (line_skipWhitespace ln pos3))"
          using "1.IH"(2) [OF True id [symmetric] nonempty pos3_def neq] .
        then have
          "pos \<le> snd (attrs_loop ln (attrs @ [(attrName, VBoolean True)]) (line_skipWhitespace ln pos3))"
          using p2 p3 line_skipWhitespace_pos [of pos3 ln] by linarith
        with True id nonempty neq show ?thesis
          by (subst attrs_loop.simps) (simp add: Let_def pos3_def [symmetric])
      qed
    qed
  qed
qed

text \<open>The attribute blocks, lines 213 to 264. A block that is not closed on the line
  ends where its entries end; \<open>]\<close> is skipped only if it is there.\<close>

function blocks_loop ::
  "jsstring \<Rightarrow> (jsstring \<times> attr_value) list \<Rightarrow> nat \<Rightarrow> (jsstring \<times> attr_value) list \<times> nat" where
  "blocks_loop ln attrs pos =
     (if line_peek ln pos = [91] then
        (case attrs_loop ln attrs (snd (line_advance ln pos)) of
           (attrs', pos1) \<Rightarrow>
             blocks_loop ln attrs'
               (line_skipWhitespace ln
                  (if line_peek ln pos1 = [93] then snd (line_advance ln pos1) else pos1)))
      else (attrs, pos))"
  by pat_completeness auto
termination
proof (relation "measure (\<lambda>(ln, attrs, pos). length ln - pos)")
  show "wf (measure (\<lambda>(ln, attrs, pos). length ln - pos))"
    by simp
next
  fix ln :: jsstring and attrs attrs' :: "(jsstring \<times> attr_value) list" and pos x pos1
  assume a: "line_peek ln pos = [91]" "(attrs', pos1) = attrs_loop ln attrs (snd (line_advance ln pos))"
  have "pos + 1 \<le> pos1"
    using attrs_loop_snd [of "pos + 1" ln attrs] a(2) [symmetric] by (simp add: line_advance_def)
  moreover have "pos1 \<le> (if line_peek ln pos1 = [93] then snd (line_advance ln pos1) else pos1)"
    by (simp add: line_advance_def)
  ultimately have
    "pos < line_skipWhitespace ln (if line_peek ln pos1 = [93] then snd (line_advance ln pos1) else pos1)"
    using line_skipWhitespace_pos
      [of "if line_peek ln pos1 = [93] then snd (line_advance ln pos1) else pos1" ln]
    by linarith
  moreover have "pos < length ln"
    using a(1) by (simp add: line_peek_eq_singleton)
  ultimately show "((ln, attrs',
      line_skipWhitespace ln (if line_peek ln pos1 = [93] then snd (line_advance ln pos1) else pos1)),
      ln, attrs, pos) \<in> measure (\<lambda>(ln, attrs, pos). length ln - pos)"
    by (simp add: diff_less_mono2)
qed

declare blocks_loop.simps [simp del]

text \<open>The quoted inline content, lines 295 to 297.\<close>

function content_loop :: "jsstring \<Rightarrow> jsstring \<Rightarrow> jsstring \<Rightarrow> nat \<Rightarrow> jsstring \<times> nat" where
  "content_loop ln quote c pos =
     (if pos < length ln \<and> line_peek ln pos \<noteq> quote
      then content_loop ln quote (c @ fst (line_advance ln pos)) (snd (line_advance ln pos))
      else (c, pos))"
  by pat_completeness auto
termination
  by (relation "measure (\<lambda>(ln, quote, c, pos). length ln - pos)") (auto simp: line_advance_def)

declare content_loop.simps [simp del]

text \<open>The test and the \<open>slice\<close> that the source repeats wherever it strips a pair of
  quotes: both ends a double quote, or both ends a single quote.\<close>

definition stripQuotes :: "jsstring \<Rightarrow> jsstring" where
  "stripQuotes c =
     (if (startsWith c [34] \<and> endsWith c [34]) \<or> (startsWith c [39] \<and> endsWith c [39])
      then slice_1_m1 c else c)"

text \<open>Lines 269 to 303: the inline content after \<open>:\<close>; \<open>None\<close> is \<open>undefined\<close>. The
  cursor is not used after this point, so the skip of a closing quote at line 298
  leaves no trace.\<close>

definition readContent :: "jsstring \<Rightarrow> nat \<Rightarrow> jsstring option" where
  "readContent ln pos0 =
     (if line_peek ln pos0 = [58] then
        (let pos = line_skipWhitespace ln (snd (line_advance ln pos0)) in
         if pos < length ln then
           (if line_peek ln pos = [124] then
              (let pos1 = line_skipWhitespace ln (snd (line_advance ln pos)) in
               if pos1 < length ln then Some (stripQuotes (trim (drop pos1 ln)))
               else Some [124])
            else if line_peek ln pos = [34] then
              Some (fst (content_loop ln (fst (line_advance ln pos)) [] (snd (line_advance ln pos))))
            else Some (trim (drop pos ln)))
         else None)
      else None)"

definition parseTagLine :: "parser \<Rightarrow> jsstring \<Rightarrow> error + tagline" where
  "parseTagLine s ln =
     (if ln = [] \<or> length (trim ln) = 0 then
        Inl (ParseError (line s) (column s) ''Empty tag line'')
      else
        (case line_readIdentifier ln 0 of (nm, pos1) \<Rightarrow>
         case classes_loop ln [] pos1 of (cls, pos2) \<Rightarrow>
         case (if line_peek ln pos2 = [35]
               then (case line_readIdentifier ln (snd (line_advance ln pos2)) of
                       (i, pos3) \<Rightarrow> (Some i, pos3))
               else (None, pos2)) of (idv, pos3) \<Rightarrow>
         case blocks_loop ln [] pos3 of (attrs, pos4) \<Rightarrow>
           Inr \<lparr>tl_name = nm, tl_classes = cls, tl_id = idv, tl_attributes = attrs,
                tl_content = readContent ln (line_skipWhitespace ln pos4)\<rparr>))"

section \<open>Cursor lemmas\<close>

text \<open>The unread part of the input.\<close>

definition rest :: "parser \<Rightarrow> jsstring" where
  "rest s = drop (position s) (input s)"

lemma peek_rest: "peek s = take 1 (rest s)"
  by (simp add: peek_def rest_def)

lemma rest_Nil: "rest s = [] \<longleftrightarrow> \<not> position s < length (input s)"
  by (auto simp: rest_def)

lemma advance_rest:
  assumes "rest s = c # r"
  shows "\<exists>s'. advance s = Inr (c, s') \<and> input s' = input s \<and>
           position s' = position s + 1 \<and> rest s' = r"
proof -
  from assms have lt: "position s < length (input s)"
    using rest_Nil [of s] by auto
  then have "drop (position s) (input s) = input s ! position s # drop (Suc (position s)) (input s)"
    by (simp add: Cons_nth_drop_Suc)
  with assms have "input s ! position s = c" "drop (Suc (position s)) (input s) = r"
    by (simp_all add: rest_def)
  with lt show ?thesis
    by (auto simp: advance_def Let_def rest_def)
qed

lemma skipNewline_rest:
  "\<exists>s'. skipNewline s = Inr s' \<and> input s' = input s \<and> position s \<le> position s' \<and>
     rest s' = (case rest s of [] \<Rightarrow> [] | c # r \<Rightarrow> if c = 10 then r else c # r)"
proof (cases "rest s")
  case Nil
  then show ?thesis
    by (simp add: skipNewline_def peek_rest)
next
  case (Cons c r)
  from advance_rest [OF Cons] Cons show ?thesis
    by (auto simp: skipNewline_def peek_rest)
qed

lemma skipIndentation_rest:
  "\<exists>s'. skipIndentation s = Inr s' \<and> input s' = input s \<and>
     position s' = position s + length (takeWhile (\<lambda>c. c = 32) (rest s)) \<and>
     rest s' = dropWhile (\<lambda>c. c = 32) (rest s)"
proof (induction s rule: skipIndentation.induct)
  case (1 s)
  show ?case
  proof (cases "rest s")
    case Nil
    then show ?thesis
      by (subst skipIndentation.simps) (simp add: peek_rest)
  next
    case (Cons c r)
    from advance_rest [OF Cons] obtain s' where
      s': "advance s = Inr (c, s')" "input s' = input s" "position s' = position s + 1" "rest s' = r"
      by blast
    show ?thesis
    proof (cases "c = 32")
      case False
      with Cons show ?thesis
        by (subst skipIndentation.simps) (simp add: peek_rest)
    next
      case True
      have "position s < length (input s) \<and> peek s = [32]"
        using Cons True rest_Nil [of s] by (simp add: peek_rest)
      from "1.IH" [OF this s'(1) refl] this s' Cons True show ?thesis
        by (subst skipIndentation.simps) auto
    qed
  qed
qed

lemma readLine_loop_rest:
  "\<exists>s'. readLine_loop result s = Inr (result @ takeWhile (\<lambda>c. c \<noteq> 10) (rest s), s') \<and>
     input s' = input s \<and> position s \<le> position s' \<and>
     (rest s \<noteq> [] \<and> hd (rest s) \<noteq> 10 \<longrightarrow> position s < position s') \<and>
     rest s' = dropWhile (\<lambda>c. c \<noteq> 10) (rest s)"
proof (induction result s rule: readLine_loop.induct)
  case (1 result s)
  show ?case
  proof (cases "rest s")
    case Nil
    with rest_Nil [of s] show ?thesis
      by (subst readLine_loop.simps) (simp add: peek_rest)
  next
    case (Cons c r)
    from advance_rest [OF Cons] obtain s' where
      s': "advance s = Inr (c, s')" "input s' = input s" "position s' = position s + 1" "rest s' = r"
      by blast
    show ?thesis
    proof (cases "c = 10")
      case True
      with Cons show ?thesis
        by (subst readLine_loop.simps) (simp add: peek_rest)
    next
      case False
      have "position s < length (input s) \<and> peek s \<noteq> [10]"
        using Cons False rest_Nil [of s] by (simp add: peek_rest)
      from "1.IH" [OF this s'(1) refl] this s' Cons False show ?thesis
        by (subst readLine_loop.simps) auto
    qed
  qed
qed

lemma getIndentLevel_loop_rest:
  "getIndentLevel_loop inp level i = level + length (takeWhile (\<lambda>c. c = 32) (drop i inp))"
proof (induction inp level i rule: getIndentLevel_loop.induct)
  case (1 inp level i)
  show ?case
  proof (cases "i < length inp")
    case False
    then show ?thesis
      by (subst getIndentLevel_loop.simps) simp
  next
    case True
    then have d: "drop i inp = inp ! i # drop (Suc i) inp"
      by (simp add: Cons_nth_drop_Suc)
    show ?thesis
    proof (cases "inp ! i = 32")
      case False
      with True d show ?thesis
        by (subst getIndentLevel_loop.simps) simp
    next
      case eq: True
      from "1.IH" True eq d show ?thesis
        by (subst getIndentLevel_loop.simps) simp
    qed
  qed
qed

lemma getIndentLevel_rest: "getIndentLevel s = length (takeWhile (\<lambda>c. c = 32) (rest s))"
  by (simp add: getIndentLevel_def getIndentLevel_loop_rest rest_def)

lemma line_progress:
  assumes "rest s \<noteq> []" "hd (rest s) \<noteq> 10"
    and "skipIndentation s = Inr s1" "readLine s1 = Inr (ln, s2)"
  shows "position s < position s2 \<and> input s2 = input s"
proof -
  from skipIndentation_rest [of s] assms(3) have
    s1: "input s1 = input s"
      "position s1 = position s + length (takeWhile (\<lambda>c. c = 32) (rest s))"
      "rest s1 = dropWhile (\<lambda>c. c = 32) (rest s)"
    by auto
  from readLine_loop_rest [of "[]" s1] assms(4) have
    s2: "input s2 = input s1" "position s1 \<le> position s2"
      "rest s1 \<noteq> [] \<and> hd (rest s1) \<noteq> 10 \<longrightarrow> position s1 < position s2"
    by (auto simp: readLine_def)
  obtain c r where cr: "rest s = c # r"
    using assms(1) by (cases "rest s") auto
  show ?thesis
  proof (cases "c = 32")
    case True
    with cr s1 s2 show ?thesis by simp
  next
    case False
    with cr s1 s2 assms(2) show ?thesis by simp
  qed
qed

section \<open>Multiline text blocks: \<open>parseMultilineText\<close>\<close>

function parseMultilineText_loop ::
  "nat \<Rightarrow> jsstring list \<Rightarrow> parser \<Rightarrow> error + (jsstring list \<times> parser)" where
  "parseMultilineText_loop baseIndent lines s =
     (if position s < length (input s) then
        (if peek s = [10] then
           (case advance s of Inl e \<Rightarrow> Inl e
            | Inr (c, s1) \<Rightarrow> parseMultilineText_loop baseIndent lines s1)
         else if getIndentLevel s \<le> baseIndent then Inr (lines, s)
         else
           (case skipIndentation s of Inl e \<Rightarrow> Inl e | Inr s1 \<Rightarrow>
            case readLine s1 of Inl e \<Rightarrow> Inl e | Inr (ln, s2) \<Rightarrow>
            case skipNewline s2 of Inl e \<Rightarrow> Inl e | Inr s3 \<Rightarrow>
              parseMultilineText_loop baseIndent
                (if trim ln \<noteq> [] then lines @ [trim ln] else lines) s3))
      else Inr (lines, s))"
  by pat_completeness auto
termination
proof (relation "measure (\<lambda>(baseIndent, lines, s). length (input s) - position s)")
  show "wf (measure (\<lambda>(baseIndent, lines, s). length (input s) - position s))"
    by simp
next
  fix baseIndent :: nat and lines :: "jsstring list" and s x2 c s1
  assume "position s < length (input s)" "peek s = [10]" "advance s = Inr x2" "(c, s1) = x2"
  then show "((baseIndent, lines, s1), baseIndent, lines, s)
      \<in> measure (\<lambda>(baseIndent, lines, s). length (input s) - position s)"
    by (auto dest!: advance_Inr)
next
  fix baseIndent :: nat and lines :: "jsstring list" and s s1 x2 ln s2 s3
  assume a: "position s < length (input s)" "peek s \<noteq> [10]"
    "skipIndentation s = Inr s1" "readLine s1 = Inr x2" "(ln, s2) = x2" "skipNewline s2 = Inr s3"
  from a(1) have ne: "rest s \<noteq> []"
    by (simp add: rest_Nil)
  with a(2) have "hd (rest s) \<noteq> 10"
    by (cases "rest s") (auto simp: peek_rest)
  from line_progress [OF ne this a(3)] a(4,5) have "position s < position s2" "input s2 = input s"
    by auto
  moreover from skipNewline_rest [of s2] a(6) have "input s3 = input s2" "position s2 \<le> position s3"
    by auto
  ultimately show "((baseIndent, if trim ln \<noteq> [] then lines @ [trim ln] else lines, s3),
      baseIndent, lines, s) \<in> measure (\<lambda>(baseIndent, lines, s). length (input s) - position s)"
    using a(1) by (simp add: diff_less_mono2)
qed

declare parseMultilineText_loop.simps [simp del]

definition parseMultilineText :: "nat \<Rightarrow> parser \<Rightarrow> error + (jsstring \<times> parser)" where
  "parseMultilineText baseIndent s =
     (case parseMultilineText_loop baseIndent [] s of
        Inl e \<Rightarrow> Inl e
      | Inr (lines, s') \<Rightarrow> Inr (join [10] lines, s'))"

section \<open>Child collection: \<open>parseChildren\<close>\<close>

definition selfClosingNames :: "jsstring list" where
  "selfClosingNames =
     [str ''br'', str ''hr'', str ''img'', str ''input'', str ''meta'', str ''link'', str ''source'']"

text \<open>Lines 414 to 422: the tag node of a parsed tag line, with the children it ends
  up with.\<close>

definition tagNode :: "tagline \<Rightarrow> node list \<Rightarrow> node" where
  "tagNode parsed kids =
     Tag (tl_name parsed) (tl_classes parsed) (tl_id parsed) (tl_attributes parsed) kids
       (tl_name parsed \<in> set selfClosingNames)"

text \<open>Lines 424 to 450: the child that the inline content of a tag line gives. The
  sentinel \<open>|\<close> reads a multiline block if the next line is deeper; any other non-empty
  content is one text child.\<close>

definition inlineChildren :: "nat \<Rightarrow> tagline \<Rightarrow> parser \<Rightarrow> error + (node list \<times> parser)" where
  "inlineChildren currentIndent parsed s =
     (if tl_content parsed = Some [124] then
        (case skipNewline s of Inl e \<Rightarrow> Inl e | Inr s1 \<Rightarrow>
           if getIndentLevel s1 > currentIndent then
             (case parseMultilineText currentIndent s1 of
                Inl e \<Rightarrow> Inl e
              | Inr (multilineContent, s2) \<Rightarrow> Inr ([Text multilineContent], s2))
           else Inr ([], s1))
      else
        (case tl_content parsed of
           Some c \<Rightarrow> if c \<noteq> [] then Inr ([Text (stripQuotes c)], s) else Inr ([], s)
         | None \<Rightarrow> Inr ([], s)))"

text \<open>Lines 382 to 403: the content of a line that starts with \<open>|\<close>.\<close>

definition markerText :: "nat \<Rightarrow> jsstring \<Rightarrow> parser \<Rightarrow> error + (jsstring \<times> parser)" where
  "markerText currentIndent ln s =
     (if length ln > 1 \<and> ln ! 1 = 32 then Inr (stripQuotes (trim (drop 2 ln)), s)
      else if length ln = 1 then parseMultilineText currentIndent s
      else Inr (stripQuotes (trim (drop 1 ln)), s))"

text \<open>\<open>/^[a-zA-Z]/.test(line)\<close>.\<close>

definition startsWithLetter :: "jsstring \<Rightarrow> bool" where
  "startsWithLetter ln = (case ln of [] \<Rightarrow> False | c # cs \<Rightarrow> isAsciiLetter c)"

text \<open>
  The loop of \<open>parseChildren\<close>, lines 344 to 479, with the list \<open>children\<close> as the
  accumulator \<open>kids\<close>. \<open>currentIndent\<close> is \<open>getIndentLevel s\<close> and \<open>line\<close> is
  \<open>trim raw\<close>. The end of the tag branch (push the tag, skip a line feed, next
  iteration) is written once for a tag with an indented block and once for a tag
  without.
\<close>

function parseChildren_loop ::
  "int \<Rightarrow> node list \<Rightarrow> parser \<Rightarrow> error + (node list \<times> parser)" where
  "parseChildren_loop parentIndent kids s =
     (if position s < length (input s) then
        (if peek s = [10] then
           (case advance s of Inl e \<Rightarrow> Inl e
            | Inr (c, s1) \<Rightarrow> parseChildren_loop parentIndent kids s1)
         else if int (getIndentLevel s) \<le> parentIndent then Inr (kids, s)
         else
           (case skipIndentation s of Inl e \<Rightarrow> Inl e | Inr s1 \<Rightarrow>
           (case readLine s1 of Inl e \<Rightarrow> Inl e | Inr (raw, s2) \<Rightarrow>
              if trim raw = [] then
                (case skipNewline s2 of Inl e \<Rightarrow> Inl e
                 | Inr s3 \<Rightarrow> parseChildren_loop parentIndent kids s3)
              else if startsWith (trim raw) (str ''!DOCTYPE '') then
                (case skipNewline s2 of Inl e \<Rightarrow> Inl e
                 | Inr s3 \<Rightarrow>
                     parseChildren_loop parentIndent
                       (kids @ [Doctype (trim (drop 9 (trim raw)))]) s3)
              else if startsWith (trim raw) [124] then
                (case markerText (getIndentLevel s) (trim raw) s2 of Inl e \<Rightarrow> Inl e
                 | Inr (textContent, s3) \<Rightarrow>
                     (case skipNewline s3 of Inl e \<Rightarrow> Inl e
                      | Inr s4 \<Rightarrow>
                          parseChildren_loop parentIndent (kids @ [Text textContent]) s4))
              else if startsWithLetter (trim raw) then
                (case parseTagLine s2 (trim raw) of Inl e \<Rightarrow> Inl e | Inr parsed \<Rightarrow>
                (case inlineChildren (getIndentLevel s) parsed s2 of Inl e \<Rightarrow> Inl e
                 | Inr (tagKids, s3) \<Rightarrow>
                (case skipNewline s3 of Inl e \<Rightarrow> Inl e | Inr s4 \<Rightarrow>
                   if position s4 < length (input s4) \<and> getIndentLevel s4 > getIndentLevel s then
                     (case parseChildren_loop (int (getIndentLevel s)) [] s4 of Inl e \<Rightarrow> Inl e
                      | Inr (deeper, s5) \<Rightarrow>
                          (case skipNewline s5 of Inl e \<Rightarrow> Inl e
                           | Inr s6 \<Rightarrow>
                               parseChildren_loop parentIndent
                                 (kids @ [tagNode parsed (tagKids @ deeper)]) s6))
                   else
                     (case skipNewline s4 of Inl e \<Rightarrow> Inl e
                      | Inr s6 \<Rightarrow>
                          parseChildren_loop parentIndent (kids @ [tagNode parsed tagKids]) s6))))
              else
                (case skipNewline s2 of Inl e \<Rightarrow> Inl e
                 | Inr s3 \<Rightarrow> parseChildren_loop parentIndent (kids @ [Text (trim raw)]) s3))))
      else Inr (kids, s))"
  by pat_completeness auto

lemma skipNewline_frame: "skipNewline s = Inr s' \<Longrightarrow> input s' = input s \<and> position s \<le> position s'"
  using skipNewline_rest [of s] by auto

lemma parseMultilineText_loop_frame:
  "parseMultilineText_loop k lines s = Inr (ls, s') \<Longrightarrow> input s' = input s \<and> position s \<le> position s'"
proof (induction k lines s arbitrary: ls s' rule: parseMultilineText_loop.induct)
  case (1 baseIndent lines s)
  show ?case
  proof (cases "position s < length (input s)")
    case False
    with "1.prems" show ?thesis
      by (subst (asm) parseMultilineText_loop.simps) simp
  next
    case inside: True
    show ?thesis
    proof (cases "peek s = [10]")
      case True
      with inside "1.prems" obtain c s1 where
        adv: "advance s = Inr (c, s1)" and r: "parseMultilineText_loop baseIndent lines s1 = Inr (ls, s')"
        by (subst (asm) parseMultilineText_loop.simps) (auto split: sum.splits)
      from "1.IH"(1) [OF inside True adv refl r] advance_Inr [OF adv] show ?thesis
        by simp
    next
      case False
      show ?thesis
      proof (cases "getIndentLevel s \<le> baseIndent")
        case True
        with inside False "1.prems" show ?thesis
          by (subst (asm) parseMultilineText_loop.simps) simp
      next
        case deeper: False
        with inside False "1.prems" obtain s1 ln s2 s3 where
          st: "skipIndentation s = Inr s1" "readLine s1 = Inr (ln, s2)" "skipNewline s2 = Inr s3"
          and r: "parseMultilineText_loop baseIndent
                    (if trim ln \<noteq> [] then lines @ [trim ln] else lines) s3 = Inr (ls, s')"
          by (subst (asm) parseMultilineText_loop.simps) (auto split: sum.splits)
        from inside have ne: "rest s \<noteq> []"
          by (simp add: rest_Nil)
        with False have "hd (rest s) \<noteq> 10"
          by (cases "rest s") (auto simp: peek_rest)
        from line_progress [OF ne this st(1,2)] skipNewline_frame [OF st(3)]
          "1.IH"(2) [OF inside False deeper st(1) st(2) refl st(3) r]
        show ?thesis by simp
      qed
    qed
  qed
qed

lemma parseMultilineText_frame:
  "parseMultilineText k s = Inr (t, s') \<Longrightarrow> input s' = input s \<and> position s \<le> position s'"
  by (auto simp: parseMultilineText_def split: sum.splits dest: parseMultilineText_loop_frame)

lemma markerText_frame:
  "markerText k ln s = Inr (t, s') \<Longrightarrow> input s' = input s \<and> position s \<le> position s'"
  by (auto simp: markerText_def split: if_splits dest: parseMultilineText_frame)

lemma inlineChildren_frame:
  "inlineChildren k parsed s = Inr (ns, s') \<Longrightarrow> input s' = input s \<and> position s \<le> position s'"
  by (auto simp: inlineChildren_def split: if_splits sum.splits option.splits
           dest!: parseMultilineText_frame skipNewline_frame)

lemma line_progress_peek:
  assumes "position s < length (input s)" "peek s \<noteq> [10]"
    and "skipIndentation s = Inr s1" "readLine s1 = Inr (ln, s2)"
  shows "position s < position s2 \<and> input s2 = input s"
proof -
  from assms(1) have ne: "rest s \<noteq> []"
    by (simp add: rest_Nil)
  with assms(2) have "hd (rest s) \<noteq> 10"
    by (cases "rest s") (auto simp: peek_rest)
  from line_progress [OF ne this assms(3,4)] show ?thesis .
qed

lemma parseChildren_loop_frame:
  "parseChildren_loop_dom (p, kids, s) \<Longrightarrow> parseChildren_loop p kids s = Inr (ns, s') \<Longrightarrow>
     input s' = input s \<and> position s \<le> position s'"
proof (induction p kids s arbitrary: ns s' rule: parseChildren_loop.pinduct)
  case (1 p kids s)
  note eq = "1.prems" [unfolded parseChildren_loop.psimps [OF "1.hyps"]]
  show ?case
  proof (cases "position s < length (input s)")
    case False
    with eq show ?thesis by simp
  next
    case inside: True
    show ?thesis
    proof (cases "peek s = [10]")
      case nl: True
      with eq inside obtain c s1 where
        adv: "advance s = Inr (c, s1)" and r: "parseChildren_loop p kids s1 = Inr (ns, s')"
        by (auto split: sum.splits)
      from "1.IH"(1) [OF inside nl adv refl r] advance_Inr [OF adv] show ?thesis
        by simp
    next
      case nonl: False
      show ?thesis
      proof (cases "int (getIndentLevel s) \<le> p")
        case True
        with eq inside nonl show ?thesis by simp
      next
        case deeper: False
        from eq inside nonl deeper obtain s1 raw s2 where
          st: "skipIndentation s = Inr s1" "readLine s1 = Inr (raw, s2)"
          by (auto split: sum.splits)
        note prog = line_progress_peek [OF inside nonl st]
        note ih = "1.IH"(2-)  [OF inside nonl deeper st(1) st(2) refl]
        note base = inside nonl deeper st
        show ?thesis
        proof (cases "trim raw = []")
          case blank: True
          with eq base obtain s3 where
            n: "skipNewline s2 = Inr s3" and r: "parseChildren_loop p kids s3 = Inr (ns, s')"
            by (auto split: sum.splits)
          from ih(1) [OF blank n r] skipNewline_frame [OF n] prog show ?thesis
            by simp
        next
          case nonblank: False
          show ?thesis
          proof (cases "startsWith (trim raw) (str ''!DOCTYPE '')")
            case dt: True
            with eq base nonblank obtain s3 where
              n: "skipNewline s2 = Inr s3" and
              r: "parseChildren_loop p (kids @ [Doctype (trim (drop 9 (trim raw)))]) s3 = Inr (ns, s')"
              by (auto split: sum.splits)
            from ih(2) [OF nonblank dt n r] skipNewline_frame [OF n] prog show ?thesis
              by simp
          next
            case nodt: False
            show ?thesis
            proof (cases "startsWith (trim raw) [124]")
              case mk: True
              with eq base nonblank nodt obtain textContent s3 s4 where
                m: "markerText (getIndentLevel s) (trim raw) s2 = Inr (textContent, s3)" and
                n: "skipNewline s3 = Inr s4" and
                r: "parseChildren_loop p (kids @ [Text textContent]) s4 = Inr (ns, s')"
                by (auto split: sum.splits)
              from ih(3) [OF nonblank nodt mk m refl n r] skipNewline_frame [OF n]
                markerText_frame [OF m] prog
              show ?thesis by simp
            next
              case nomk: False
              show ?thesis
              proof (cases "startsWithLetter (trim raw)")
                case False
                with eq base nonblank nodt nomk obtain s3 where
                  n: "skipNewline s2 = Inr s3" and
                  r: "parseChildren_loop p (kids @ [Text (trim raw)]) s3 = Inr (ns, s')"
                  by (auto split: sum.splits)
                from ih(7) [OF nonblank nodt nomk False n r] skipNewline_frame [OF n] prog
                show ?thesis by simp
              next
                case tg: True
                with eq base nonblank nodt nomk obtain parsed tagKids s3 s4 where
                  pt: "parseTagLine s2 (trim raw) = Inr parsed" and
                  ic: "inlineChildren (getIndentLevel s) parsed s2 = Inr (tagKids, s3)" and
                  n: "skipNewline s3 = Inr s4"
                  by (auto split: sum.splits)
                note base' = base nonblank nodt nomk tg pt ic n
                note ih' = ih(4-6) [OF nonblank nodt nomk tg pt ic refl n]
                have f4: "input s4 = input s \<and> position s \<le> position s4"
                  using inlineChildren_frame [OF ic] skipNewline_frame [OF n] prog by simp
                show ?thesis
                proof (cases "position s4 < length (input s4) \<and> getIndentLevel s < getIndentLevel s4")
                  case block: True
                  with eq base' obtain deeper s5 s6 where
                    c: "parseChildren_loop (int (getIndentLevel s)) [] s4 = Inr (deeper, s5)" and
                    n2: "skipNewline s5 = Inr s6" and
                    r: "parseChildren_loop p (kids @ [tagNode parsed (tagKids @ deeper)]) s6
                          = Inr (ns, s')"
                    by (auto split: sum.splits)
                  from ih'(1) [OF block c] ih'(2) [OF block c refl n2 r] skipNewline_frame [OF n2] f4
                  show ?thesis by simp
                next
                  case noblock: False
                  with eq base' obtain s6 where
                    n2: "skipNewline s4 = Inr s6" and
                    r: "parseChildren_loop p (kids @ [tagNode parsed tagKids]) s6 = Inr (ns, s')"
                    by (auto split: sum.splits)
                  from ih'(3) [OF noblock n2 r] skipNewline_frame [OF n2] f4
                  show ?thesis by simp
                qed
              qed
            qed
          qed
        qed
      qed
    qed
  qed
qed


lemma measure_step:
  "input s' = input s \<and> position s < position s' \<Longrightarrow> position s < length (input s) \<Longrightarrow>
     ((p', k', s'), (p, k, s)) \<in> measure (\<lambda>(p, kids, s). length (input s) - position s)"
  by (simp add: diff_less_mono2)

termination parseChildren_loop
  apply (relation "measure (\<lambda>(p, kids, s). length (input s) - position s)")
           apply simp
  subgoal by (rule measure_step) (auto dest: advance_Inr)
  subgoal by (rule measure_step) (auto dest!: line_progress_peek skipNewline_frame)
  subgoal by (rule measure_step) (auto dest!: line_progress_peek skipNewline_frame)
  subgoal by (rule measure_step) (auto dest!: line_progress_peek skipNewline_frame markerText_frame)
  subgoal by (rule measure_step)
      (auto dest!: line_progress_peek skipNewline_frame inlineChildren_frame)
  subgoal by (rule measure_step)
      (auto dest!: line_progress_peek skipNewline_frame inlineChildren_frame parseChildren_loop_frame)
  subgoal by (rule measure_step)
      (auto dest!: line_progress_peek skipNewline_frame inlineChildren_frame)
  subgoal by (rule measure_step) (auto dest!: line_progress_peek skipNewline_frame)
  done


declare parseChildren_loop.simps [simp del]

definition parseChildren :: "int \<Rightarrow> parser \<Rightarrow> error + (node list \<times> parser)" where
  "parseChildren parentIndent s = parseChildren_loop parentIndent [] s"

definition parse :: "parser \<Rightarrow> error + node list" where
  "parse s = (case parseChildren (- 1) s of Inl e \<Rightarrow> Inl e | Inr (ns, s') \<Rightarrow> Inr ns)"

text \<open>\<open>new TinyHTMLParser(source).parse()\<close>, as \<open>compile\<close> calls it.\<close>

definition parseSource :: "jsstring \<Rightarrow> error + node list" where
  "parseSource src = (case constructor src of Inl e \<Rightarrow> Inl e | Inr s \<Rightarrow> parse s)"

section \<open>Lines and blocks\<close>

text \<open>
  The words of the specification about lines, written over the unread input. The
  indentation of a line is its number of leading space characters. A line belongs to
  the block under indentation \<open>p\<close> if it is empty or indented by more than \<open>p\<close>;
  \<open>block_lines\<close> is the longest run of such lines and \<open>after_block\<close> is the input from
  the first other line on.
\<close>

definition indent_of :: "jsstring \<Rightarrow> nat" where
  "indent_of l = length (takeWhile (\<lambda>c. c = 32) l)"

definition in_block :: "int \<Rightarrow> jsstring \<Rightarrow> bool" where
  "in_block p l \<longleftrightarrow> l = [] \<or> p < int (indent_of l)"

definition block_lines :: "int \<Rightarrow> jsstring \<Rightarrow> jsstring list" where
  "block_lines p r = takeWhile (in_block p) (split_lines r)"

definition after_block :: "int \<Rightarrow> jsstring \<Rightarrow> jsstring" where
  "after_block p r = join [10] (dropWhile (in_block p) (split_lines r))"

definition skip_lf :: "jsstring \<Rightarrow> jsstring" where
  "skip_lf r = (case r of [] \<Rightarrow> [] | c # r' \<Rightarrow> if c = 10 then r' else c # r')"

lemma split_lines_nonempty [simp]: "split_lines r \<noteq> []"
  by (induction r) (auto split: list.splits)

lemma split_lines_Cons:
  "split_lines (c # cs) =
     (if c = 10 then [] # split_lines cs else (c # hd (split_lines cs)) # tl (split_lines cs))"
  by (cases "split_lines cs") auto

lemma split_lines_first:
  "split_lines r =
     takeWhile (\<lambda>c. c \<noteq> 10) r #
       (case dropWhile (\<lambda>c. c \<noteq> 10) r of [] \<Rightarrow> [] | c # r' \<Rightarrow> split_lines r')"
  by (induction r) (auto split: list.splits)

lemma split_lines_no_lf: "l \<in> set (split_lines r) \<Longrightarrow> 10 \<notin> set l"
  by (induction r arbitrary: l) (auto split: list.splits if_splits)

lemma join_Cons: "join sep (x # xs) = (if xs = [] then x else x @ sep @ join sep xs)"
  by (cases xs) auto

lemma join_split_lines [simp]: "join [10] (split_lines r) = r"
  by (induction r) (auto simp: join_Cons split: list.splits)

lemma split_lines_join:
  "xs \<noteq> [] \<Longrightarrow> \<forall>l \<in> set xs. 10 \<notin> set l \<Longrightarrow> split_lines (join [10] xs) = xs"
proof (induction xs)
  case Nil
  then show ?case by simp
next
  case (Cons x xs)
  have nolf: "\<forall>c \<in> set x. c \<noteq> 10"
    using Cons.prems(2) by auto
  have tw: "\<And>ys. takeWhile (\<lambda>c. c \<noteq> 10) (x @ 10 # ys) = x" 
    using nolf by (induction x) auto
  have dw: "\<And>ys. dropWhile (\<lambda>c. c \<noteq> 10) (x @ 10 # ys) = 10 # ys"
    using nolf by (induction x) auto
  have tw0: "takeWhile (\<lambda>c. c \<noteq> 10) x = x" "dropWhile (\<lambda>c. c \<noteq> 10) x = []"
    using nolf by simp_all
  show ?case
  proof (cases "xs = []")
    case True
    then show ?thesis
      by (subst split_lines_first) (simp add: tw0)
  next
    case False
    with Cons have "split_lines (join [10] xs) = xs" by simp
    with False show ?thesis
      by (subst split_lines_first) (simp add: join_Cons tw dw)
  qed
qed


lemma after_block_Nil [simp]: "after_block p [] = []"
  by (simp add: after_block_def in_block_def)

lemma after_block_lf [simp]: "after_block p (10 # r) = after_block p r"
  by (simp add: after_block_def in_block_def)

lemma after_block_skip_lf [simp]: "after_block p (skip_lf r) = after_block p r"
  by (cases r) (auto simp: skip_lf_def)

lemma indent_of_first_line:
  "indent_of (takeWhile (\<lambda>c. c \<noteq> 10) r) = indent_of r"
  unfolding indent_of_def by (induction r) auto

text \<open>The first line of \<open>r\<close> and what follows its line feed.\<close>

definition first_line :: "jsstring \<Rightarrow> jsstring" where
  "first_line r = takeWhile (\<lambda>c. c \<noteq> 10) r"

definition next_lines :: "jsstring \<Rightarrow> jsstring" where
  "next_lines r = drop 1 (dropWhile (\<lambda>c. c \<noteq> 10) r)"

lemma split_lines_first_next:
  "split_lines r = first_line r # (if dropWhile (\<lambda>c. c \<noteq> 10) r = [] then [] else split_lines (next_lines r))"
proof (cases "dropWhile (\<lambda>c. c \<noteq> 10) r")
  case Nil
  have "split_lines r = [takeWhile (\<lambda>c. c \<noteq> 10) r]"
    by (subst split_lines_first) (simp only: Nil list.case)
  then show ?thesis
    unfolding first_line_def Nil by simp
next
  case (Cons c r')
  have "split_lines r = takeWhile (\<lambda>c. c \<noteq> 10) r # split_lines r'"
    by (subst split_lines_first) (simp only: Cons list.case)
  then show ?thesis
    unfolding first_line_def next_lines_def Cons by simp
qed

lemma after_block_stop:
  "r \<noteq> [] \<Longrightarrow> hd r \<noteq> 10 \<Longrightarrow> int (indent_of r) \<le> p \<Longrightarrow> after_block p r = r"
proof -
  assume a: "r \<noteq> []" "hd r \<noteq> 10" "int (indent_of r) \<le> p"
  then have "first_line r \<noteq> []"
    by (cases r) (auto simp: first_line_def)
  moreover have "indent_of (first_line r) = indent_of r"
    by (simp add: first_line_def indent_of_first_line)
  ultimately have "\<not> in_block p (first_line r)"
    using a(3) by (simp add: in_block_def)
  then have "dropWhile (in_block p) (split_lines r) = split_lines r"
    by (subst (1 2) split_lines_first_next) simp
  then show ?thesis
    by (simp add: after_block_def)
qed

lemma after_block_consume:
  "p < int (indent_of r) \<Longrightarrow> after_block p r = after_block p (next_lines r)"
proof -
  assume a: "p < int (indent_of r)"
  have "indent_of (first_line r) = indent_of r"
    by (simp add: first_line_def indent_of_first_line)
  with a have ib: "in_block p (first_line r)"
    by (simp add: in_block_def)
  show ?thesis
  proof (cases "dropWhile (\<lambda>c. c \<noteq> 10) r = []")
    case True
    have nl: "next_lines r = []"
      unfolding next_lines_def True by simp
    have "split_lines r = [first_line r]"
      by (subst split_lines_first_next) (simp only: True refl if_True)
    with ib show ?thesis
      by (simp add: after_block_def nl in_block_def)
  next
    case False
    have "split_lines r = first_line r # split_lines (next_lines r)"
      by (subst split_lines_first_next) (simp only: False if_False)
    with ib show ?thesis
      by (simp add: after_block_def)
  qed
qed

lemma after_block_no_lf: "after_block p r = [] \<or> hd (after_block p r) \<noteq> 10"
proof (cases "dropWhile (in_block p) (split_lines r)")
  case Nil
  show ?thesis unfolding after_block_def Nil by simp
next
  case (Cons l ls)
  then have "\<not> in_block p l"
    using hd_dropWhile [of "in_block p" "split_lines r"] by auto
  then have "l \<noteq> []"
    by (auto simp: in_block_def)
  moreover have "l \<in> set (split_lines r)"
    using Cons set_dropWhileD [of l "in_block p" "split_lines r"] by simp
  then have "10 \<notin> set l"
    by (rule split_lines_no_lf)
  ultimately have "hd l \<noteq> 10"
    by (cases l) auto
  moreover have "after_block p r = join [10] (l # ls)"
    unfolding after_block_def Cons ..
  ultimately show ?thesis
    using \<open>l \<noteq> []\<close> by (cases l) (simp_all add: join_Cons)
qed

lemma skip_lf_after_block [simp]: "skip_lf (after_block p r) = after_block p r"
  using after_block_no_lf [of p r] by (cases "after_block p r") (auto simp: skip_lf_def)

lemma dropWhile_dropWhile_weaker:
  "(\<And>x. Q x \<Longrightarrow> P x) \<Longrightarrow> dropWhile P (dropWhile Q xs) = dropWhile P xs"
  by (induction xs) auto

lemma after_block_after_block:
  assumes "p \<le> q"
  shows "after_block p (after_block q r) = after_block p r"
proof -
  let ?d = "dropWhile (in_block q) (split_lines r)"
  have weaker: "\<And>x. in_block q x \<Longrightarrow> in_block p x"
    using assms by (auto simp: in_block_def)
  show ?thesis
  proof (cases "?d = []")
    case True
    have "dropWhile (in_block p) (dropWhile (in_block q) (split_lines r)) = []"
      unfolding True by simp
    then have "dropWhile (in_block p) (split_lines r) = []"
      using dropWhile_dropWhile_weaker [of "in_block q" "in_block p" "split_lines r"] weaker
      by (simp only:)
    then have "after_block p r = []"
      unfolding after_block_def by (simp only: join.simps)
    moreover have "after_block p (after_block q r) = []"
      unfolding after_block_def [of q] True by simp
    ultimately show ?thesis by simp
  next
    case False
    have "\<forall>l \<in> set ?d. 10 \<notin> set l"
    proof
      fix l
      assume "l \<in> set ?d"
      then have "l \<in> set (split_lines r)"
        by (rule set_dropWhileD)
      then show "10 \<notin> set l"
        by (rule split_lines_no_lf)
    qed
    with False have "split_lines (join [10] ?d) = ?d"
      by (rule split_lines_join)
    then show ?thesis
      using dropWhile_dropWhile_weaker [of "in_block q" "in_block p" "split_lines r"] weaker
      by (simp add: after_block_def)
  qed
qed


text \<open>The lines of the block under \<open>k\<close> that a multiline text keeps: each trimmed, the
  blank ones dropped.\<close>

definition kept_lines :: "nat \<Rightarrow> jsstring \<Rightarrow> jsstring list" where
  "kept_lines k r = filter (\<lambda>l. l \<noteq> []) (map trim (block_lines (int k) r))"

lemma trim_Nil [simp]: "trim [] = []"
  by (simp add: trim_def trimStart_def trimEnd_def)

lemma kept_lines_Nil [simp]: "kept_lines k [] = []"
  by (simp add: kept_lines_def block_lines_def in_block_def)

lemma kept_lines_lf [simp]: "kept_lines k (10 # r) = kept_lines k r"
  by (simp add: kept_lines_def block_lines_def in_block_def)

lemma kept_lines_stop:
  assumes "r \<noteq> []" "hd r \<noteq> 10" "indent_of r \<le> k"
  shows "kept_lines k r = []"
proof -
  from assms have "first_line r \<noteq> []"
    by (cases r) (auto simp: first_line_def)
  moreover have "indent_of (first_line r) = indent_of r"
    by (simp add: first_line_def indent_of_first_line)
  ultimately have "\<not> in_block (int k) (first_line r)"
    using assms(3) by (simp add: in_block_def)
  then have "takeWhile (in_block (int k)) (split_lines r) = []"
    by (subst split_lines_first_next) simp
  then show ?thesis
    by (simp add: kept_lines_def block_lines_def)
qed

lemma kept_lines_consume:
  assumes "k < indent_of r"
  shows "kept_lines k r =
    (if trim (first_line r) \<noteq> [] then [trim (first_line r)] else []) @ kept_lines k (next_lines r)"
proof -
  have "indent_of (first_line r) = indent_of r"
    by (simp add: first_line_def indent_of_first_line)
  with assms have ib: "in_block (int k) (first_line r)"
    by (simp add: in_block_def)
  show ?thesis
  proof (cases "dropWhile (\<lambda>c. c \<noteq> 10) r = []")
    case True
    have nl: "next_lines r = []"
      unfolding next_lines_def True by simp
    have "split_lines r = [first_line r]"
      by (subst split_lines_first_next) (simp only: True refl if_True)
    with ib show ?thesis
      by (simp add: kept_lines_def block_lines_def nl in_block_def)
  next
    case False
    have "split_lines r = first_line r # split_lines (next_lines r)"
      by (subst split_lines_first_next) (simp only: False if_False)
    with ib show ?thesis
      by (simp add: kept_lines_def block_lines_def)
  qed
qed

lemma trim_dropWhile_space: "trim (dropWhile (\<lambda>c. c = 32) l) = trim l"
proof -
  have "dropWhile isWhiteSpace (dropWhile (\<lambda>c. c = 32) l) = dropWhile isWhiteSpace l"
    by (rule dropWhile_dropWhile_weaker) (simp add: isWhiteSpace_def)
  then show ?thesis
    by (simp add: trim_def trimStart_def)
qed

lemma takeWhile_dropWhile_space:
  "takeWhile (\<lambda>c. c \<noteq> 10) (dropWhile (\<lambda>c. c = 32) r) = dropWhile (\<lambda>c. c = 32) (first_line r)"
  unfolding first_line_def by (induction r) auto

lemma dropWhile_dropWhile_space:
  "dropWhile (\<lambda>c. c \<noteq> 10) (dropWhile (\<lambda>c. c = (32::nat)) r) = dropWhile (\<lambda>c. c \<noteq> 10) r"
  by (rule dropWhile_dropWhile_weaker) simp

lemma skip_lf_rest_of_line: "skip_lf (dropWhile (\<lambda>c. c \<noteq> 10) r) = next_lines r"
proof (cases "dropWhile (\<lambda>c. c \<noteq> 10) r")
  case Nil
  show ?thesis
    unfolding next_lines_def skip_lf_def Nil by simp
next
  case (Cons c r')
  have "dropWhile (\<lambda>c. c \<noteq> 10) r \<noteq> []"
    unfolding Cons by simp
  then have "\<not> hd (dropWhile (\<lambda>c. c \<noteq> 10) r) \<noteq> 10"
    by (rule hd_dropWhile)
  then have "c = 10"
    unfolding Cons by simp
  then show ?thesis
    unfolding next_lines_def skip_lf_def Cons by simp
qed

lemma skipNewline_skip_lf:
  "\<exists>s'. skipNewline s = Inr s' \<and> input s' = input s \<and> rest s' = skip_lf (rest s)"
  using skipNewline_rest [of s] by (auto simp: skip_lf_def)

text \<open>Reading one line: the indentation is skipped, the line is read up to its line
  feed, and the line feed is skipped if there is one.\<close>

lemma read_line_step:
  "\<exists>s1 s2 s3. skipIndentation s = Inr s1 \<and>
     readLine s1 = Inr (dropWhile (\<lambda>c. c = 32) (first_line (rest s)), s2) \<and>
     skipNewline s2 = Inr s3 \<and> input s2 = input s \<and> input s3 = input s \<and>
     rest s2 = dropWhile (\<lambda>c. c \<noteq> 10) (rest s) \<and> rest s3 = next_lines (rest s)"
proof -
  from skipIndentation_rest [of s] obtain s1 where
    s1: "skipIndentation s = Inr s1" "input s1 = input s"
      "rest s1 = dropWhile (\<lambda>c. c = 32) (rest s)"
    by blast
  from readLine_loop_rest [of "[]" s1] obtain s2 where
    s2: "readLine s1 = Inr (takeWhile (\<lambda>c. c \<noteq> 10) (rest s1), s2)" "input s2 = input s1"
      "rest s2 = dropWhile (\<lambda>c. c \<noteq> 10) (rest s1)"
    by (auto simp: readLine_def)
  from skipNewline_skip_lf [of s2] obtain s3 where
    s3: "skipNewline s2 = Inr s3" "input s3 = input s2" "rest s3 = skip_lf (rest s2)"
    by blast
  from s1 s2 s3 show ?thesis
    by (simp add: takeWhile_dropWhile_space dropWhile_dropWhile_space skip_lf_rest_of_line)
qed

lemma parseMultilineText_loop_lines:
  "\<exists>s'. parseMultilineText_loop k lines s = Inr (lines @ kept_lines k (rest s), s') \<and>
     input s' = input s \<and> rest s' = after_block (int k) (rest s)"
proof (induction k lines s rule: parseMultilineText_loop.induct)
  case (1 k lines s)
  show ?case
  proof (cases "position s < length (input s)")
    case False
    then have "rest s = []"
      by (simp add: rest_Nil)
    with False show ?thesis
      by (subst parseMultilineText_loop.simps) simp
  next
    case inside: True
    then obtain c r' where cr: "rest s = c # r'"
      by (cases "rest s") (auto simp: rest_Nil)
    show ?thesis
    proof (cases "peek s = [10]")
      case nl: True
      then have c10: "c = 10"
        using cr by (simp add: peek_rest)
      from advance_rest [OF cr] obtain s1 where
        adv: "advance s = Inr (c, s1)" "input s1 = input s" "rest s1 = r'"
        by blast
      from "1.IH"(1) [OF inside nl adv(1) refl] obtain s' where
        r: "parseMultilineText_loop k lines s1 = Inr (lines @ kept_lines k (rest s1), s')"
          "input s' = input s1" "rest s' = after_block (int k) (rest s1)"
        by blast
      have "parseMultilineText_loop k lines s = parseMultilineText_loop k lines s1"
        using inside nl adv(1) by (subst parseMultilineText_loop.simps) simp
      with r adv cr c10 show ?thesis
        by simp
    next
      case nonl: False
      then have c10: "c \<noteq> 10"
        using cr by (simp add: peek_rest)
      have ind: "getIndentLevel s = indent_of (rest s)"
        by (simp add: getIndentLevel_rest indent_of_def)
      show ?thesis
      proof (cases "getIndentLevel s \<le> k")
        case True
        have "after_block (int k) (rest s) = rest s"
          using after_block_stop [of "rest s" "int k"] cr c10 True ind by simp
        moreover have "kept_lines k (rest s) = []"
          using kept_lines_stop [of "rest s" k] cr c10 True ind by simp
        ultimately show ?thesis
          using inside nonl True by (subst parseMultilineText_loop.simps) simp
      next
        case deeper: False
        from read_line_step [of s] obtain s1 s2 s3 where
          st: "skipIndentation s = Inr s1"
            "readLine s1 = Inr (dropWhile (\<lambda>c. c = 32) (first_line (rest s)), s2)"
            "skipNewline s2 = Inr s3" "input s3 = input s" "rest s3 = next_lines (rest s)"
          by blast
        let ?lines = "if trim (first_line (rest s)) \<noteq> [] then lines @ [trim (first_line (rest s))]
                      else lines"
        from "1.IH"(2) [OF inside nonl deeper st(1) st(2) refl st(3), unfolded trim_dropWhile_space]
        obtain s' where
          r: "parseMultilineText_loop k ?lines s3 = Inr (?lines @ kept_lines k (rest s3), s')"
            "input s' = input s3" "rest s' = after_block (int k) (rest s3)"
          by blast
        have "parseMultilineText_loop k lines s = parseMultilineText_loop k ?lines s3"
          using inside nonl deeper st(1-3)
          by (subst parseMultilineText_loop.simps) (simp add: trim_dropWhile_space)
        moreover have "after_block (int k) (rest s) = after_block (int k) (next_lines (rest s))"
          using after_block_consume [of "int k" "rest s"] deeper ind by simp
        moreover have "kept_lines k (rest s) =
            (if trim (first_line (rest s)) \<noteq> [] then [trim (first_line (rest s))] else [])
              @ kept_lines k (next_lines (rest s))"
          using kept_lines_consume [of k "rest s"] deeper ind by simp
        ultimately show ?thesis
          using r st(4,5) by simp
      qed
    qed
  qed
qed

lemma parseMultilineText_lines:
  "\<exists>s'. parseMultilineText k s = Inr (join [10] (kept_lines k (rest s)), s') \<and>
     input s' = input s \<and> rest s' = after_block (int k) (rest s)"
  using parseMultilineText_loop_lines [of k "[]" s] by (auto simp: parseMultilineText_def)


lemma trimEnd_prefix: "\<exists>ys. y = trimEnd y @ ys"
proof -
  have "rev (takeWhile isWhiteSpace (rev y) @ dropWhile isWhiteSpace (rev y)) = y"
    by simp
  then have "rev (dropWhile isWhiteSpace (rev y)) @ rev (takeWhile isWhiteSpace (rev y)) = y"
    by (simp only: rev_append)
  then have "y = trimEnd y @ rev (takeWhile isWhiteSpace (rev y))"
    unfolding trimEnd_def by (rule sym)
  then show ?thesis ..
qed

lemma trimStart_idem_trimEnd: "trimStart (trimEnd (trimStart x)) = trimEnd (trimStart x)"
proof (cases "trimEnd (trimStart x)")
  case Nil
  then show ?thesis by (simp add: trimStart_def)
next
  case (Cons c cs)
  from trimEnd_prefix [of "trimStart x"] obtain ys where "trimStart x = trimEnd (trimStart x) @ ys"
    by blast
  with Cons have ts: "trimStart x = c # cs @ ys"
    by simp
  then have "dropWhile isWhiteSpace x \<noteq> []"
    by (simp add: trimStart_def)
  then have "\<not> isWhiteSpace (hd (dropWhile isWhiteSpace x))"
    by (rule hd_dropWhile)
  with ts have "\<not> isWhiteSpace c"
    by (simp add: trimStart_def)
  with Cons show ?thesis
    by (simp add: trimStart_def)
qed

lemma trim_idem [simp]: "trim (trim x) = trim x"
proof -
  have "trimEnd (trimEnd y) = trimEnd y" for y
    by (simp add: trimEnd_def)
  then show ?thesis
    by (simp add: trim_def trimStart_idem_trimEnd)
qed

lemma parseTagLine_total:
  "trim ln \<noteq> [] \<Longrightarrow> \<exists>parsed. parseTagLine s ln = Inr parsed"
  by (auto simp: parseTagLine_def split: prod.splits)

lemma markerText_total:
  "\<exists>t s'. markerText k ln s = Inr (t, s') \<and> input s' = input s \<and>
     (rest s' = rest s \<or> rest s' = after_block (int k) (rest s))"
  using parseMultilineText_lines [of k s] by (auto simp: markerText_def)

lemma inlineChildren_total:
  assumes "\<And>t. P (Text t)"
  shows "\<exists>ns s'. inlineChildren k parsed s = Inr (ns, s') \<and> input s' = input s \<and> list_all P ns \<and>
     (rest s' = rest s \<or> rest s' = skip_lf (rest s) \<or>
      rest s' = after_block (int k) (skip_lf (rest s)))"
proof (cases "tl_content parsed = Some [124]")
  case False
  with assms show ?thesis
    by (auto simp: inlineChildren_def split: option.splits)
next
  case True
  from skipNewline_skip_lf [of s] obtain s1 where
    s1: "skipNewline s = Inr s1" "input s1 = input s" "rest s1 = skip_lf (rest s)"
    by blast
  from parseMultilineText_lines [of k s1] obtain s2 where
    s2: "parseMultilineText k s1 = Inr (join [10] (kept_lines k (rest s1)), s2)"
      "input s2 = input s1" "rest s2 = after_block (int k) (rest s1)"
    by blast
  from True s1 s2 assms show ?thesis
    by (auto simp: inlineChildren_def)
qed


text \<open>
  The loop of \<open>parseChildren\<close> always returns: every \<open>advance\<close> is behind a test that
  the cursor is inside the input. It leaves the input as it is and the cursor where
  the block under \<open>p\<close> ends, and every node it adds is a doctype, a text or a
  \<open>tagNode\<close> of such nodes.
\<close>

lemma parseChildren_loop_result:
  assumes P: "\<And>d. P (Doctype d)" "\<And>t. P (Text t)"
    "\<And>parsed ks. list_all P ks \<Longrightarrow> P (tagNode parsed ks)"
  shows "\<exists>ns s'. parseChildren_loop p kids s = Inr (ns, s') \<and> input s' = input s \<and>
     rest s' = after_block p (rest s) \<and> (list_all P kids \<longrightarrow> list_all P ns)"
proof (induction p kids s rule: parseChildren_loop.induct)
  case (1 p kids s)
  have fin: "\<exists>ns s'. parseChildren_loop p kids s = Inr (ns, s') \<and> input s' = input s \<and>
      rest s' = after_block p (rest s) \<and> (list_all P kids \<longrightarrow> list_all P ns)"
    if "parseChildren_loop p kids s = parseChildren_loop p kids' t"
      and "\<exists>ns s'. parseChildren_loop p kids' t = Inr (ns, s') \<and> input s' = input t \<and>
        rest s' = after_block p (rest t) \<and> (list_all P kids' \<longrightarrow> list_all P ns)"
      and "input t = input s" and "after_block p (rest t) = after_block p (rest s)"
      and "list_all P kids \<longrightarrow> list_all P kids'"
    for kids' t
    using that by auto
  show ?case
  proof (cases "position s < length (input s)")
    case False
    then have "rest s = []"
      by (simp add: rest_Nil)
    with False show ?thesis
      by (subst parseChildren_loop.simps) simp
  next
    case inside: True
    then obtain c r' where cr: "rest s = c # r'"
      by (cases "rest s") (auto simp: rest_Nil)
    show ?thesis
    proof (cases "peek s = [10]")
      case nl: True
      then have c10: "c = 10"
        using cr by (simp add: peek_rest)
      from advance_rest [OF cr] obtain s1 where
        adv: "advance s = Inr (c, s1)" "input s1 = input s" "rest s1 = r'"
        by blast
      have eq: "parseChildren_loop p kids s = parseChildren_loop p kids s1"
        using inside nl adv(1) by (subst parseChildren_loop.simps) simp
      show ?thesis
        by (rule fin [OF eq "1.IH"(1) [OF inside nl adv(1) refl]]) (simp_all add: adv cr c10)
    next
      case nonl: False
      then have c10: "c \<noteq> 10"
        using cr by (simp add: peek_rest)
      have ind: "getIndentLevel s = indent_of (rest s)"
        by (simp add: getIndentLevel_rest indent_of_def)
      show ?thesis
      proof (cases "int (getIndentLevel s) \<le> p")
        case True
        have "after_block p (rest s) = rest s"
          using after_block_stop [of "rest s" p] cr c10 True ind by simp
        with inside nonl True show ?thesis
          by (subst parseChildren_loop.simps) simp
      next
        case deeper: False
        define raw where "raw = dropWhile (\<lambda>c. c = 32) (first_line (rest s))"
        from read_line_step [of s] obtain s1 s2 s3 where
          st: "skipIndentation s = Inr s1" "readLine s1 = Inr (raw, s2)"
            "skipNewline s2 = Inr s3" "input s2 = input s" "input s3 = input s"
            "rest s2 = dropWhile (\<lambda>c. c \<noteq> 10) (rest s)" "rest s3 = next_lines (rest s)"
          unfolding raw_def by blast
        have ab: "after_block p (next_lines (rest s)) = after_block p (rest s)"
          using after_block_consume [of p "rest s"] deeper ind by simp
        have pc: "p \<le> int (getIndentLevel s)"
          using deeper by simp
        note ih = "1.IH"(2-) [OF inside nonl deeper st(1) st(2) refl]
        note base = inside nonl deeper st(1,2)
        show ?thesis
        proof (cases "trim raw = []")
          case blank: True
          have eq: "parseChildren_loop p kids s = parseChildren_loop p kids s3"
            using base blank st(3) by (subst parseChildren_loop.simps) simp
          show ?thesis
            by (rule fin [OF eq ih(1) [OF blank st(3)]]) (simp_all add: st ab)
        next
          case nonblank: False
          show ?thesis
          proof (cases "startsWith (trim raw) (str ''!DOCTYPE '')")
            case dt: True
            have eq: "parseChildren_loop p kids s =
                parseChildren_loop p (kids @ [Doctype (trim (drop 9 (trim raw)))]) s3"
              using base nonblank dt st(3) by (subst parseChildren_loop.simps) simp
            show ?thesis
              by (rule fin [OF eq ih(2) [OF nonblank dt st(3)]]) (simp_all add: st ab P)
          next
            case nodt: False
            show ?thesis
            proof (cases "startsWith (trim raw) [124]")
              case mk: True
              from markerText_total [of "getIndentLevel s" "trim raw" s2] obtain textContent t3 where
                m: "markerText (getIndentLevel s) (trim raw) s2 = Inr (textContent, t3)"
                  "input t3 = input s2"
                  "rest t3 = rest s2 \<or> rest t3 = after_block (int (getIndentLevel s)) (rest s2)"
                by blast
              from skipNewline_skip_lf [of t3] obtain t4 where
                n: "skipNewline t3 = Inr t4" "input t4 = input t3" "rest t4 = skip_lf (rest t3)"
                by blast
              have eq: "parseChildren_loop p kids s =
                  parseChildren_loop p (kids @ [Text textContent]) t4"
                using base nonblank nodt mk m(1) n(1) by (subst parseChildren_loop.simps) simp
              have "after_block p (rest t4) = after_block p (rest s)"
                using m(3) n(3) st(6) ab skip_lf_rest_of_line [of "rest s"]
                  after_block_skip_lf [of p "dropWhile (\<lambda>c. c \<noteq> 10) (rest s)"]
                  after_block_skip_lf [of "int (getIndentLevel s)" "dropWhile (\<lambda>c. c \<noteq> 10) (rest s)"]
                  after_block_after_block [OF pc, of "next_lines (rest s)"]
                by auto
              then show ?thesis
                by (intro fin [OF eq ih(3) [OF nonblank nodt mk m(1) refl n(1)]])
                   (simp_all add: st m n P)
            next
              case nomk: False
              show ?thesis
              proof (cases "startsWithLetter (trim raw)")
                case False
                have eq: "parseChildren_loop p kids s =
                    parseChildren_loop p (kids @ [Text (trim raw)]) s3"
                  using base nonblank nodt nomk False st(3)
                  by (subst parseChildren_loop.simps) simp
                show ?thesis
                  by (rule fin [OF eq ih(7) [OF nonblank nodt nomk False st(3)]])
                     (simp_all add: st ab P)
              next
                case tg: True
                from parseTagLine_total [of "trim raw" s2] nonblank obtain parsed where
                  pt: "parseTagLine s2 (trim raw) = Inr parsed"
                  by auto
                from inlineChildren_total [of P "getIndentLevel s" parsed s2, OF P(2)]
                obtain tagKids t3 where
                  ic: "inlineChildren (getIndentLevel s) parsed s2 = Inr (tagKids, t3)"
                    "input t3 = input s2" "list_all P tagKids"
                    "rest t3 = rest s2 \<or> rest t3 = skip_lf (rest s2) \<or>
                     rest t3 = after_block (int (getIndentLevel s)) (skip_lf (rest s2))"
                  by blast
                from skipNewline_skip_lf [of t3] obtain t4 where
                  n: "skipNewline t3 = Inr t4" "input t4 = input t3" "rest t4 = skip_lf (rest t3)"
                  by blast
                have ab4: "after_block p (rest t4) = after_block p (rest s)"
                  using ic(4) n(3) st(6) ab skip_lf_rest_of_line [of "rest s"]
                    after_block_skip_lf [of p "dropWhile (\<lambda>c. c \<noteq> 10) (rest s)"]
                    after_block_after_block [OF pc, of "next_lines (rest s)"]
                  by auto
                note ih' = ih(4-6) [OF nonblank nodt nomk tg pt ic(1) refl n(1)]
                note base' = base nonblank nodt nomk tg pt ic(1) n(1)
                show ?thesis
                proof (cases "position t4 < length (input t4) \<and> getIndentLevel s < getIndentLevel t4")
                  case block: True
                  from ih'(1) [OF block] obtain deeper t5 where
                    c: "parseChildren_loop (int (getIndentLevel s)) [] t4 = Inr (deeper, t5)"
                      "input t5 = input t4" "rest t5 = after_block (int (getIndentLevel s)) (rest t4)"
                      "list_all P deeper"
                    by auto
                  from skipNewline_skip_lf [of t5] obtain t6 where
                    n2: "skipNewline t5 = Inr t6" "input t6 = input t5" "rest t6 = skip_lf (rest t5)"
                    by blast
                  have eq: "parseChildren_loop p kids s =
                      parseChildren_loop p (kids @ [tagNode parsed (tagKids @ deeper)]) t6"
                    using base' block c(1) n2(1) by (subst parseChildren_loop.simps) simp
                  have "after_block p (rest t6) = after_block p (rest s)"
                    using c(3) n2(3) ab4 after_block_after_block [OF pc, of "rest t4"] by simp
                  then show ?thesis
                    by (intro fin [OF eq ih'(2) [OF block c(1) refl n2(1)]])
                       (simp_all add: st ic n c n2 P)
                next
                  case noblock: False
                  from skipNewline_skip_lf [of t4] obtain t6 where
                    n2: "skipNewline t4 = Inr t6" "input t6 = input t4" "rest t6 = skip_lf (rest t4)"
                    by blast
                  have eq: "parseChildren_loop p kids s =
                      parseChildren_loop p (kids @ [tagNode parsed tagKids]) t6"
                    using base' noblock n2(1) by (subst parseChildren_loop.simps) auto
                  have "after_block p (rest t6) = after_block p (rest s)"
                    using n2(3) ab4 by simp
                  then show ?thesis
                    by (intro fin [OF eq ih'(3) [OF noblock n2(1)]])
                       (simp_all add: st ic n n2 P)
                qed
              qed
            qed
          qed
        qed
      qed
    qed
  qed
qed


section \<open>The nodes of the unread input\<close>

text \<open>
  Child collection reads the parser through its unread input only. \<open>start r\<close> is a
  parser whose unread input is \<open>r\<close>, and \<open>nodes p r\<close> is the list of nodes that
  \<open>parseChildren\<close> returns at parent indentation \<open>p\<close> when the unread input is \<open>r\<close>.
\<close>

definition start :: "jsstring \<Rightarrow> parser" where
  "start r = \<lparr>input = r, position = 0, line = 1, column = 1\<rparr>"

definition nodes :: "int \<Rightarrow> jsstring \<Rightarrow> node list" where
  "nodes p r = (case parseChildren p (start r) of Inl e \<Rightarrow> [] | Inr (ns, s') \<Rightarrow> ns)"

text \<open>\<open>parseTagLine\<close> raises on a blank line only, and only then does it read the
  state; \<open>tagLine ln\<close> is what it returns on a line that is not blank.\<close>

definition tagLine :: "jsstring \<Rightarrow> tagline" where
  "tagLine ln = projr (parseTagLine (start []) ln)"

text \<open>The tag branch of the loop, lines 424 to 455, read on the input \<open>d\<close> that
  follows the line feed of a tag line at indentation \<open>k\<close>: the child that the inline
  content gives, and the input that is unread once the inline content is done and
  the line feed after it is skipped.\<close>

definition inline_nodes :: "nat \<Rightarrow> tagline \<Rightarrow> jsstring \<Rightarrow> node list" where
  "inline_nodes k parsed d =
     (if tl_content parsed = Some [124] then
        (if k < indent_of d then [Text (join [10] (kept_lines k d))] else [])
      else
        (case tl_content parsed of
           Some c \<Rightarrow> if c \<noteq> [] then [Text (stripQuotes c)] else []
         | None \<Rightarrow> []))"

definition inline_rest :: "nat \<Rightarrow> tagline \<Rightarrow> jsstring \<Rightarrow> jsstring" where
  "inline_rest k parsed d =
     (if tl_content parsed = Some [124] then
        (if k < indent_of d then after_block (int k) d else skip_lf d)
      else d)"

text \<open>One iteration of the loop on a line that is deeper than the parent: the nodes
  that it adds and the input at which the loop goes on.\<close>

definition line_step :: "jsstring \<Rightarrow> node list \<times> jsstring" where
  "line_step r =
     (let k = indent_of r; l = trim (first_line r); d = next_lines r in
      if l = [] then ([], d)
      else if startsWith l (str ''!DOCTYPE '') then ([Doctype (trim (drop 9 l))], d)
      else if startsWith l [124] then
        (if length l > 1 \<and> l ! 1 = 32 then ([Text (stripQuotes (trim (drop 2 l)))], d)
         else if length l = 1 then ([Text (join [10] (kept_lines k d))], after_block (int k) d)
         else ([Text (stripQuotes (trim (drop 1 l)))], d))
      else if startsWithLetter l then
        (let inl = inline_nodes k (tagLine l) d; d' = inline_rest k (tagLine l) d in
         if k < indent_of d'
         then ([tagNode (tagLine l) (inl @ nodes (int k) d')], after_block (int k) d')
         else ([tagNode (tagLine l) inl], skip_lf d'))
      else ([Text l], d))"

text \<open>The loop unfolded once.\<close>

definition loop_nodes :: "int \<Rightarrow> jsstring \<Rightarrow> node list" where
  "loop_nodes p r =
     (if r = [] then []
      else if hd r = 10 then nodes p (tl r)
      else if int (indent_of r) \<le> p then []
      else fst (line_step r) @ nodes p (snd (line_step r)))"

lemma rest_start [simp]: "rest (start r) = r"
  by (simp add: rest_def start_def)

lemma parseTagLine_tagLine: "trim ln \<noteq> [] \<Longrightarrow> parseTagLine s ln = Inr (tagLine ln)"
  by (auto simp: parseTagLine_def tagLine_def split: prod.splits)

lemma length_skip_lf: "length (skip_lf r) \<le> length r"
  by (cases r) (auto simp: skip_lf_def)

lemma length_next_lines: "r \<noteq> [] \<Longrightarrow> length (next_lines r) < length r"
proof -
  assume ne: "r \<noteq> []"
  have le: "length (dropWhile (\<lambda>c. c \<noteq> 10) r) \<le> length r"
    by (rule length_dropWhile_le)
  show ?thesis
  proof (cases "dropWhile (\<lambda>c. c \<noteq> 10) r")
    case Nil
    have "next_lines r = []"
      unfolding next_lines_def Nil by simp
    with ne show ?thesis by simp
  next
    case (Cons c r')
    have "length (next_lines r) = length r'"
      unfolding next_lines_def Cons by simp
    with le show ?thesis
      unfolding Cons by simp
  qed
qed

lemma length_after_block: "length (after_block p r) \<le> length r"
proof (induction "length r" arbitrary: r rule: less_induct)
  case less
  show ?case
  proof (cases r)
    case Nil
    then show ?thesis by simp
  next
    case (Cons c r')
    show ?thesis
    proof (cases "c = 10")
      case True
      with Cons less [of r'] show ?thesis by simp
    next
      case False
      show ?thesis
      proof (cases "int (indent_of r) \<le> p")
        case True
        with after_block_stop [of r p] Cons False show ?thesis by simp
      next
        case deeper: False
        then have "after_block p r = after_block p (next_lines r)"
          using after_block_consume [of p r] by simp
        moreover have "r \<noteq> []"
          using Cons by simp
        then have "length (next_lines r) < length r"
          by (rule length_next_lines)
        ultimately show ?thesis
          using less [of "next_lines r"] by simp
      qed
    qed
  qed
qed

lemma inline_rest_length: "length (inline_rest k parsed d) \<le> length d"
  using length_after_block [of "int k" d] length_skip_lf [of d]
  by (simp add: inline_rest_def)

lemma inline_rest_after:
  "p \<le> int k \<Longrightarrow> after_block p (inline_rest k parsed d) = after_block p d"
  by (simp add: inline_rest_def after_block_after_block)

lemma inlineChildren_text:
  "\<exists>s3 s4. inlineChildren k parsed s = Inr (inline_nodes k parsed (skip_lf (rest s)), s3) \<and>
     skipNewline s3 = Inr s4 \<and> input s4 = input s \<and>
     rest s4 = inline_rest k parsed (skip_lf (rest s))"
proof (cases "tl_content parsed = Some [124]")
  case False
  from skipNewline_skip_lf [of s] obtain s4 where
    "skipNewline s = Inr s4" "input s4 = input s" "rest s4 = skip_lf (rest s)"
    by blast
  with False show ?thesis
    by (auto simp: inlineChildren_def inline_nodes_def inline_rest_def split: option.splits)
next
  case True
  from skipNewline_skip_lf [of s] obtain s1 where
    s1: "skipNewline s = Inr s1" "input s1 = input s" "rest s1 = skip_lf (rest s)"
    by blast
  have ind: "getIndentLevel s1 = indent_of (skip_lf (rest s))"
    using s1(3) by (simp add: getIndentLevel_rest indent_of_def)
  show ?thesis
  proof (cases "k < indent_of (skip_lf (rest s))")
    case deeper: True
    from parseMultilineText_lines [of k s1] obtain s2 where
      s2: "parseMultilineText k s1 = Inr (join [10] (kept_lines k (rest s1)), s2)"
        "input s2 = input s1" "rest s2 = after_block (int k) (rest s1)"
      by blast
    from skipNewline_skip_lf [of s2] obtain s4 where
      s4: "skipNewline s2 = Inr s4" "input s4 = input s2" "rest s4 = skip_lf (rest s2)"
      by blast
    from True deeper s1 s2 s4 ind show ?thesis
      by (simp add: inlineChildren_def inline_nodes_def inline_rest_def)
  next
    case False
    from skipNewline_skip_lf [of s1] obtain s4 where
      s4: "skipNewline s1 = Inr s4" "input s4 = input s1" "rest s4 = skip_lf (rest s1)"
      by blast
    from True False s1 s4 ind show ?thesis
      by (simp add: inlineChildren_def inline_nodes_def inline_rest_def)
  qed
qed

lemma line_step_length:
  assumes "r \<noteq> []"
  shows "length (snd (line_step r)) < length r"
proof -
  define k where "k = indent_of r"
  define d where "d = next_lines r"
  define d' where "d' = inline_rest k (tagLine (trim (first_line r))) d"
  have d: "length d < length r"
    using assms by (simp add: d_def length_next_lines)
  have "length (after_block (int k) d) \<le> length d" "length d' \<le> length d"
    "length (after_block (int k) d') \<le> length d'" "length (skip_lf d') \<le> length d'"
    by (simp_all add: length_after_block length_skip_lf d'_def inline_rest_length)
  with d have "length (after_block (int k) d) < length r" "length (after_block (int k) d') < length r"
    "length (skip_lf d') < length r"
    by simp_all
  with d show ?thesis
    unfolding line_step_def Let_def k_def [symmetric] d_def [symmetric] d'_def [symmetric]
    by simp
qed

lemma line_step_after:
  assumes "p < int (indent_of r)"
  shows "after_block p (snd (line_step r)) = after_block p r"
proof -
  define k where "k = indent_of r"
  define d where "d = next_lines r"
  define d' where "d' = inline_rest k (tagLine (trim (first_line r))) d"
  have pk: "p \<le> int k"
    using assms by (simp add: k_def)
  have ab: "after_block p d = after_block p r"
    using after_block_consume [OF assms] by (simp add: d_def)
  have ab': "after_block p d' = after_block p r"
    using inline_rest_after [OF pk] ab by (simp add: d'_def)
  have "after_block p (after_block (int k) d) = after_block p r"
    "after_block p (after_block (int k) d') = after_block p r"
    "after_block p (skip_lf d') = after_block p r"
    using ab ab' pk by (simp_all add: after_block_after_block)
  with ab show ?thesis
    unfolding line_step_def Let_def k_def [symmetric] d_def [symmetric] d'_def [symmetric]
    by simp
qed


lemma kept_lines_skip_lf [simp]: "kept_lines k (skip_lf r) = kept_lines k r"
  by (cases r) (auto simp: skip_lf_def)

lemma loop_line:
  assumes H: "\<And>t. rest t = inline_rest (indent_of (rest s)) (tagLine (trim (first_line (rest s))))
                          (next_lines (rest s)) \<Longrightarrow>
     \<exists>t'. parseChildren_loop (int (indent_of (rest s))) [] t
             = Inr (nodes (int (indent_of (rest s))) (rest t), t') \<and>
          input t' = input t \<and> rest t' = after_block (int (indent_of (rest s))) (rest t)"
    and r: "rest s \<noteq> []" "hd (rest s) \<noteq> 10" "p < int (indent_of (rest s))"
  shows "\<exists>t. parseChildren_loop p kids s = parseChildren_loop p (kids @ fst (line_step (rest s))) t \<and>
     input t = input s \<and> rest t = snd (line_step (rest s))"
proof -
  define k where "k = indent_of (rest s)"
  define l where "l = trim (first_line (rest s))"
  define d where "d = next_lines (rest s)"
  define raw where "raw = dropWhile (\<lambda>c. c = 32) (first_line (rest s))"
  define inl where "inl = inline_nodes k (tagLine l) d"
  define d' where "d' = inline_rest k (tagLine l) d"
  have ls: "line_step (rest s) =
     (if l = [] then ([], d)
      else if startsWith l (str ''!DOCTYPE '') then ([Doctype (trim (drop 9 l))], d)
      else if startsWith l [124] then
        (if length l > 1 \<and> l ! 1 = 32 then ([Text (stripQuotes (trim (drop 2 l)))], d)
         else if length l = 1 then ([Text (join [10] (kept_lines k d))], after_block (int k) d)
         else ([Text (stripQuotes (trim (drop 1 l)))], d))
      else if startsWithLetter l then
        (if k < indent_of d'
         then ([tagNode (tagLine l) (inl @ nodes (int k) d')], after_block (int k) d')
         else ([tagNode (tagLine l) inl], skip_lf d'))
      else ([Text l], d))"
    by (simp add: line_step_def Let_def k_def l_def d_def inl_def d'_def)
  have tr: "trim raw = l"
    by (simp add: raw_def l_def trim_dropWhile_space)
  have trl: "trim l = l"
    by (simp add: l_def)
  from r obtain c r' where cr: "rest s = c # r'" "c \<noteq> 10"
    by (cases "rest s") auto
  have inside: "position s < length (input s)"
    using r(1) by (simp add: rest_Nil)
  have nonl: "peek s \<noteq> [10]"
    using cr by (simp add: peek_rest)
  have ind: "getIndentLevel s = k"
    by (simp add: getIndentLevel_rest indent_of_def k_def)
  have deeper: "\<not> int k \<le> p"
    using r(3) by (simp add: k_def)
  from read_line_step [of s] obtain s1 s2 s3 where
    st: "skipIndentation s = Inr s1" "readLine s1 = Inr (raw, s2)" "skipNewline s2 = Inr s3"
      "input s2 = input s" "input s3 = input s"
      "rest s2 = dropWhile (\<lambda>c. c \<noteq> 10) (rest s)" "rest s3 = d"
    unfolding raw_def d_def by blast
  have d2: "skip_lf (rest s2) = d"
    using st(6) by (simp add: skip_lf_rest_of_line d_def)
  note base = inside nonl ind deeper st(1,2) tr
  show ?thesis
  proof (cases "l = []")
    case blank: True
    have "parseChildren_loop p kids s = parseChildren_loop p kids s3"
      using base blank st(3) by (subst parseChildren_loop.simps) simp
    with blank st show ?thesis
      by (auto simp: ls)
  next
    case nonblank: False
    show ?thesis
    proof (cases "startsWith l (str ''!DOCTYPE '')")
      case dt: True
      have "parseChildren_loop p kids s =
          parseChildren_loop p (kids @ [Doctype (trim (drop 9 l))]) s3"
        using base nonblank dt st(3) by (subst parseChildren_loop.simps) simp
      with nonblank dt st show ?thesis
        by (auto simp: ls)
    next
      case nodt: False
      show ?thesis
      proof (cases "startsWith l [124]")
        case mk: True
        show ?thesis
        proof (cases "length l = 1")
          case bare: True
          from parseMultilineText_lines [of k s2] obtain t3 where
            m: "parseMultilineText k s2 = Inr (join [10] (kept_lines k (rest s2)), t3)"
              "input t3 = input s2" "rest t3 = after_block (int k) (rest s2)"
            by blast
          from skipNewline_skip_lf [of t3] obtain t4 where
            n: "skipNewline t3 = Inr t4" "input t4 = input t3" "rest t4 = skip_lf (rest t3)"
            by blast
          have kl: "kept_lines k (rest s2) = kept_lines k d"
            using kept_lines_skip_lf [of k "rest s2"] d2 by simp
          have ab: "after_block (int k) (rest s2) = after_block (int k) d"
            using after_block_skip_lf [of "int k" "rest s2"] d2 by simp
          have "parseChildren_loop p kids s =
              parseChildren_loop p (kids @ [Text (join [10] (kept_lines k d))]) t4"
            using base nonblank nodt mk bare m(1) n(1) kl
            by (subst parseChildren_loop.simps) (simp add: markerText_def)
          moreover have "rest t4 = after_block (int k) d"
            using n(3) m(3) ab by simp
          moreover have "input t4 = input s"
            using n(2) m(2) st(4) by simp
          ultimately show ?thesis
            using nonblank nodt mk bare by (auto simp: ls)
        next
          case notbare: False
          define tc where "tc = (if length l > 1 \<and> l ! 1 = 32 then stripQuotes (trim (drop 2 l))
                                   else stripQuotes (trim (drop 1 l)))"
          have m: "markerText k l s2 = Inr (tc, s2)"
            using notbare by (simp add: markerText_def tc_def)
          have "parseChildren_loop p kids s = parseChildren_loop p (kids @ [Text tc]) s3"
            using base nonblank nodt mk m st(3)
            by (subst parseChildren_loop.simps) simp
          with nonblank nodt mk notbare st show ?thesis
            by (auto simp: ls tc_def)
        qed
      next
        case nomk: False
        show ?thesis
        proof (cases "startsWithLetter l")
          case False
          have "parseChildren_loop p kids s = parseChildren_loop p (kids @ [Text l]) s3"
            using base nonblank nodt nomk False st(3)
            by (subst parseChildren_loop.simps) simp
          with nonblank nodt nomk False st show ?thesis
            by (auto simp: ls)
        next
          case tg: True
          have pt: "parseTagLine s2 l = Inr (tagLine l)"
            using nonblank trl by (intro parseTagLine_tagLine) simp
          from inlineChildren_text [of k "tagLine l" s2] obtain t3 t4 where
            ic: "inlineChildren k (tagLine l) s2 = Inr (inl, t3)" "skipNewline t3 = Inr t4"
              "input t4 = input s2" "rest t4 = d'"
            unfolding d2 inl_def d'_def by blast
          have guard: "(position t4 < length (input t4) \<and> k < getIndentLevel t4) \<longleftrightarrow> k < indent_of d'"
            using ic(4) rest_Nil [of t4]
            by (auto simp: getIndentLevel_rest indent_of_def)
          note base' = base nonblank nodt nomk tg pt ic(1,2)
          show ?thesis
          proof (cases "k < indent_of d'")
            case block: True
            from H [of t4] ic(4) obtain t5 where
              c: "parseChildren_loop (int k) [] t4 = Inr (nodes (int k) d', t5)"
                "input t5 = input t4" "rest t5 = after_block (int k) d'"
              unfolding k_def l_def d_def d'_def by auto
            from skipNewline_skip_lf [of t5] obtain t6 where
              n2: "skipNewline t5 = Inr t6" "input t6 = input t5" "rest t6 = skip_lf (rest t5)"
              by blast
            have "parseChildren_loop p kids s =
                parseChildren_loop p (kids @ [tagNode (tagLine l) (inl @ nodes (int k) d')]) t6"
              using base' block guard c(1) n2(1)
              by (subst parseChildren_loop.simps) simp
            moreover have "rest t6 = after_block (int k) d'" "input t6 = input s"
              using n2 c ic(3) st(4) by simp_all
            ultimately show ?thesis
              using nonblank nodt nomk tg block by (auto simp: ls)
          next
            case noblock: False
            from skipNewline_skip_lf [of t4] obtain t6 where
              n2: "skipNewline t4 = Inr t6" "input t6 = input t4" "rest t6 = skip_lf (rest t4)"
              by blast
            have "parseChildren_loop p kids s =
                parseChildren_loop p (kids @ [tagNode (tagLine l) inl]) t6"
              using base' noblock guard n2(1)
              by (subst parseChildren_loop.simps) auto
            moreover have "rest t6 = skip_lf d'" "input t6 = input s"
              using n2 ic st(4) by simp_all
            ultimately show ?thesis
              using nonblank nodt nomk tg noblock by (auto simp: ls)
          qed
        qed
      qed
    qed
  qed
qed


lemma loop_unfold:
  assumes H: "\<And>q ks t. length (rest t) < length (rest s) \<Longrightarrow>
     \<exists>t'. parseChildren_loop q ks t = Inr (ks @ nodes q (rest t), t') \<and> input t' = input t \<and>
          rest t' = after_block q (rest t)"
  shows "\<exists>s'. parseChildren_loop p kids s = Inr (kids @ loop_nodes p (rest s), s') \<and>
     input s' = input s \<and> rest s' = after_block p (rest s)"
proof (cases "rest s")
  case Nil
  then have "\<not> position s < length (input s)"
    by (simp add: rest_Nil)
  with Nil show ?thesis
    by (subst parseChildren_loop.simps) (simp add: loop_nodes_def)
next
  case (Cons c r')
  then have inside: "position s < length (input s)"
    using rest_Nil [of s] by simp
  show ?thesis
  proof (cases "c = 10")
    case True
    from advance_rest [OF Cons] obtain s1 where
      adv: "advance s = Inr (c, s1)" "input s1 = input s" "rest s1 = r'"
      by blast
    have eq: "parseChildren_loop p kids s = parseChildren_loop p kids s1"
      using inside True Cons adv(1) by (subst parseChildren_loop.simps) (simp add: peek_rest)
    from H [of s1 p kids] adv(3) Cons obtain t' where
      "parseChildren_loop p kids s1 = Inr (kids @ nodes p r', t')" "input t' = input s1"
      "rest t' = after_block p r'"
      by auto
    with eq adv(2) Cons True show ?thesis
      by (simp add: loop_nodes_def)
  next
    case False
    have ne: "rest s \<noteq> []" "hd (rest s) \<noteq> 10"
      using Cons False by simp_all
    have nonl: "peek s \<noteq> [10]"
      using Cons False by (simp add: peek_rest)
    have ind: "getIndentLevel s = indent_of (rest s)"
      by (simp add: getIndentLevel_rest indent_of_def)
    show ?thesis
    proof (cases "int (indent_of (rest s)) \<le> p")
      case True
      have "after_block p (rest s) = rest s"
        using after_block_stop [OF ne True] .
      moreover have "parseChildren_loop p kids s = Inr (kids, s)"
        using inside nonl ind True by (subst parseChildren_loop.simps) simp
      ultimately show ?thesis
        using ne True by (simp add: loop_nodes_def)
    next
      case deeper: False
      then have lt: "p < int (indent_of (rest s))"
        by simp
      have nested: "\<exists>t'. parseChildren_loop (int (indent_of (rest s))) [] t
             = Inr (nodes (int (indent_of (rest s))) (rest t), t') \<and>
          input t' = input t \<and> rest t' = after_block (int (indent_of (rest s))) (rest t)"
        if "rest t = inline_rest (indent_of (rest s)) (tagLine (trim (first_line (rest s))))
                          (next_lines (rest s))" for t
      proof -
        have "length (rest t) \<le> length (next_lines (rest s))"
          unfolding that by (rule inline_rest_length)
        also have "\<dots> < length (rest s)"
          using ne(1) by (rule length_next_lines)
        finally show ?thesis
          using H [of t "int (indent_of (rest s))" "[]"] by simp
      qed
      from loop_line [of s p kids, OF nested ne lt] obtain t where
        t: "parseChildren_loop p kids s = parseChildren_loop p (kids @ fst (line_step (rest s))) t"
          "input t = input s" "rest t = snd (line_step (rest s))"
        by blast
      have "length (rest t) < length (rest s)"
        unfolding t(3) using ne(1) by (rule line_step_length)
      from H [OF this, of p "kids @ fst (line_step (rest s))"] obtain t' where
        t': "parseChildren_loop p (kids @ fst (line_step (rest s))) t
              = Inr ((kids @ fst (line_step (rest s))) @ nodes p (rest t), t')"
          "input t' = input t" "rest t' = after_block p (rest t)"
        by blast
      have "after_block p (rest t) = after_block p (rest s)"
        unfolding t(3) using lt by (rule line_step_after)
      with t t' ne deeper show ?thesis
        by (simp add: loop_nodes_def)
    qed
  qed
qed

lemma nodes_run:
  "\<exists>s'. parseChildren_loop p kids s = Inr (kids @ nodes p (rest s), s') \<and> input s' = input s \<and>
     rest s' = after_block p (rest s)"
proof (induction "length (rest s)" arbitrary: p kids s rule: less_induct)
  case less
  have H: "\<exists>t'. parseChildren_loop q ks t = Inr (ks @ nodes q (rest t), t') \<and> input t' = input t \<and>
          rest t' = after_block q (rest t)" if "length (rest t) < length (rest s)" for q ks t
    using less [OF that] .
  have H0: "\<exists>t'. parseChildren_loop q ks t = Inr (ks @ nodes q (rest t), t') \<and> input t' = input t \<and>
          rest t' = after_block q (rest t)" if "length (rest t) < length (rest (start (rest s)))"
    for q ks t
    using that H by simp
  from loop_unfold [of "start (rest s)" p "[]", OF H0]
  have "nodes p (rest s) = loop_nodes p (rest s)"
    by (auto simp: nodes_def parseChildren_def)
  with loop_unfold [of s p kids, OF H] show ?case
    by simp
qed

lemma nodes_loop_nodes: "nodes p r = loop_nodes p r"
  using loop_unfold [of "start r" p "[]", OF nodes_run] by (auto simp: nodes_def parseChildren_def)



lemma first_line_nonblank:
  assumes "trim (first_line r) \<noteq> []"
  shows "r \<noteq> [] \<and> hd r \<noteq> 10"
proof (cases r)
  case Nil
  with assms show ?thesis by (simp add: first_line_def)
next
  case (Cons c r')
  with assms show ?thesis by (auto simp: first_line_def)
qed


section \<open>Closed forms for evaluation\<close>

lemma line_skipWhitespace_eq:
  "line_skipWhitespace ln pos = pos + length (takeWhile isSpaceOrTab (drop pos ln))"
proof (induction ln pos rule: line_skipWhitespace.induct)
  case (1 ln pos)
  show ?case
  proof (cases "pos < length ln")
    case False
    then show ?thesis
      by (subst line_skipWhitespace.simps) simp
  next
    case True
    then have d: "drop pos ln = ln ! pos # drop (Suc pos) ln"
      by (simp add: Cons_nth_drop_Suc)
    show ?thesis
    proof (cases "isSpaceOrTab (ln ! pos)")
      case False
      with True d show ?thesis
        by (subst line_skipWhitespace.simps) (simp add: line_peek_def test_class_def)
    next
      case ws: True
      with True d have "pos < length ln \<and> test_class isSpaceOrTab (line_peek ln pos)"
        by (simp add: line_peek_def test_class_def)
      from "1.IH" [OF this] this d ws show ?thesis
        by (subst line_skipWhitespace.simps) simp
    qed
  qed
qed

lemma line_readIdentifier_loop_eq:
  "line_readIdentifier_loop ln result pos =
     (result @ takeWhile isIdentChar (drop pos ln),
      pos + length (takeWhile isIdentChar (drop pos ln)))"
proof (induction ln result pos rule: line_readIdentifier_loop.induct)
  case (1 ln result pos)
  show ?case
  proof (cases "pos < length ln")
    case False
    then show ?thesis
      by (subst line_readIdentifier_loop.simps) simp
  next
    case True
    then have d: "drop pos ln = ln ! pos # drop (Suc pos) ln"
      by (simp add: Cons_nth_drop_Suc)
    show ?thesis
    proof (cases "isIdentChar (ln ! pos)")
      case False
      with True d show ?thesis
        by (subst line_readIdentifier_loop.simps) (simp add: line_peek_def test_class_def)
    next
      case idc: True
      with True d have "pos < length ln \<and> test_class isIdentChar (line_peek ln pos)"
        by (simp add: line_peek_def test_class_def)
      from "1.IH" [OF this] this d idc True show ?thesis
        by (subst line_readIdentifier_loop.simps) (simp add: line_advance_def)
    qed
  qed
qed

lemma line_readIdentifier_eq:
  "line_readIdentifier ln pos =
     (takeWhile isIdentChar (drop pos ln), pos + length (takeWhile isIdentChar (drop pos ln)))"
  by (simp add: line_readIdentifier_def line_readIdentifier_loop_eq)

lemma parseTagLine_state: "trim ln \<noteq> [] \<Longrightarrow> parseTagLine s ln = parseTagLine s' ln"
  by (auto simp: parseTagLine_def)

text \<open>A source of one line that is a tag line whose inline content, if any, is not the
  multiline sentinel.\<close>

lemma parseSource_tag_line:
  assumes ln: "startsWithLetter ln" "10 \<notin> set ln" "trim ln = ln"
    and ok: "length ln \<le> 10 * 1024 * 1024" "0 \<notin> set ln" "65534 \<notin> set ln" "65535 \<notin> set ln"
    and parsed: "parseTagLine s ln = Inr parsed" "tl_content parsed \<noteq> Some [124]"
  shows "parseSource ln =
    Inr [tagNode parsed
          (case tl_content parsed of
             Some c \<Rightarrow> if c \<noteq> [] then [Text (stripQuotes c)] else []
           | None \<Rightarrow> [])]"
proof -
  let ?kids = "case tl_content parsed of
                 Some c \<Rightarrow> if c \<noteq> [] then [Text (stripQuotes c)] else []
               | None \<Rightarrow> []"
  from ln(1) obtain c cs where cs: "ln = c # cs" "isAsciiLetter c"
    by (cases ln) (auto simp: startsWithLetter_def)
  define s0 where "s0 = \<lparr>input = ln, position = 0, line = 1, column = 1\<rparr>"
  have con: "constructor ln = Inr s0"
    using cs ok ln(3) by (simp add: constructor_def s0_def)
  have r0: "rest s0 = ln"
    by (simp add: rest_def s0_def)
  have c_ne: "c \<noteq> 10" "c \<noteq> 32" "c \<noteq> 33" "c \<noteq> 124"
    using cs(2) by (auto simp: isAsciiLetter_def)
  have dw: "dropWhile (\<lambda>c. c \<noteq> 10) ln = []"
    using ln(2) by auto
  have fl: "first_line ln = ln" "next_lines ln = []"
    using ln(2) unfolding first_line_def next_lines_def dw by auto
  from read_line_step [of s0] obtain s1 s2 s3 where
    st: "skipIndentation s0 = Inr s1" "readLine s1 = Inr (ln, s2)"
      "skipNewline s2 = Inr s3" "rest s2 = []" "rest s3 = []"
    using r0 fl dw cs c_ne by auto
  have inside: "position s0 < length (input s0)" "peek s0 \<noteq> [10]"
    using cs c_ne by (auto simp: s0_def peek_def)
  have ind: "getIndentLevel s0 = 0"
    using cs c_ne r0 by (simp add: getIndentLevel_rest)
  have cls: "\<not> startsWith ln (str ''!DOCTYPE '')" "\<not> startsWith ln [124]"
    using cs c_ne by (auto simp: startsWith_def str_def)
  have pt: "parseTagLine s2 ln = Inr parsed"
    using parsed(1) parseTagLine_state [of ln s2 s] ln(3) cs by simp
  have ic: "inlineChildren 0 parsed s2 = Inr (?kids, s2)"
    using parsed(2) by (simp add: inlineChildren_def split: option.splits)
  have e3: "\<not> position s3 < length (input s3)" "peek s3 \<noteq> [10]"
    using st(5) rest_Nil [of s3] by (auto simp: peek_rest)
  then have n3: "skipNewline s3 = Inr s3"
    by (simp add: skipNewline_def)
  have "parseChildren_loop (- 1) [tagNode parsed ?kids] s3 = Inr ([tagNode parsed ?kids], s3)"
    using e3 by (subst parseChildren_loop.simps) simp
  then have "parseChildren_loop (- 1) [] s0 = Inr ([tagNode parsed ?kids], s3)"
    using inside ind st(1-3) ln(3) cs cls ln(1) pt ic e3 n3
    by (subst parseChildren_loop.simps) simp
  with con show ?thesis
    by (simp add: parseSource_def parse_def parseChildren_def)
qed

lemmas tagline_eval =
  parseTagLine_def line_readIdentifier_eq line_skipWhitespace_eq classes_loop.simps
  blocks_loop.simps attrs_loop.simps readAttrValue_def quoted_loop.simps unquoted_loop.simps
  content_loop.simps readContent_def line_peek_def line_advance_def isIdentChar_def
  isSpaceOrTab_def stripQuotes_def startsWith_def endsWith_def slice_1_m1_def
  trim_def trimStart_def trimEnd_def isWhiteSpace_def Let_def

lemma trim_no_ws_ends:
  "\<not> isWhiteSpace c \<Longrightarrow> \<not> isWhiteSpace e \<Longrightarrow> trim (c # xs @ [e]) = c # xs @ [e]"
  by (simp add: trim_def trimStart_def trimEnd_def)

lemma set_concat_replicate: "set (concat (replicate n xs)) \<subseteq> set xs"
  by (induction n) auto

text \<open>An attribute block of \<open>n\<close> flags \<open>x\<close>, each followed by a space.\<close>

lemma attrs_loop_flags:
  "drop pos ln = concat (replicate n [120, 32]) @ [93] \<Longrightarrow>
     attrs_loop ln attrs pos = (attrs @ replicate n ([120], VBoolean True), pos + 2 * n) \<and>
     drop (pos + 2 * n) ln = [93]"
proof (induction n arbitrary: attrs pos)
  case 0
  then have "pos < length ln"
    by (cases "pos < length ln") auto
  with 0 show ?case
    by (subst attrs_loop.simps) (simp add: line_peek_def)
next
  case (Suc n)
  let ?R = "concat (replicate n [120, 32::nat]) @ [93]"
  from Suc.prems have d0: "drop pos ln = 120 # 32 # ?R"
    by simp
  then have lt: "pos < length ln"
    by (cases "pos < length ln") auto
  have d1: "drop (Suc pos) ln = 32 # ?R"
    using d0 drop_drop [of 1 pos ln] by simp
  have d2: "drop (Suc (Suc pos)) ln = ?R"
    using d0 drop_drop [of 2 pos ln] by simp
  have hdR: "\<exists>c R'. ?R = c # R' \<and> (c = 120 \<or> c = 93)"
    by (cases n) auto
  then obtain c R' where R: "?R = c # R'" "c = 120 \<or> c = 93"
    by blast
  have sw0: "line_skipWhitespace ln pos = pos"
    using d0 by (simp add: line_skipWhitespace_eq isSpaceOrTab_def)
  have rid: "line_readIdentifier ln pos = ([120], Suc pos)"
    using d0 by (simp add: line_readIdentifier_eq isIdentChar_def)
  have sw1: "line_skipWhitespace ln (Suc pos) = Suc (Suc pos)"
    using d1 R by (auto simp: line_skipWhitespace_eq isSpaceOrTab_def)
  have pk2: "line_peek ln (Suc (Suc pos)) = [c]"
    using d2 R by (simp add: line_peek_def)
  have sw2: "line_skipWhitespace ln (Suc (Suc pos)) = Suc (Suc pos)"
    using d2 R by (auto simp: line_skipWhitespace_eq isSpaceOrTab_def)
  have step: "attrs_loop ln attrs pos =
      attrs_loop ln (attrs @ [([120], VBoolean True)]) (Suc (Suc pos))"
    using lt d0 sw0 rid sw1 pk2 sw2 R(2)
    by (subst attrs_loop.simps) (auto simp: line_peek_def)
  from Suc.IH [OF d2, of "attrs @ [([120], VBoolean True)]"] step show ?case
    by (simp add: replicate_append_same)
qed

lemma parseTagLine_flags:
  "parseTagLine s ([97, 91] @ concat (replicate n [120, 32]) @ [93]) =
     Inr \<lparr>tl_name = [97], tl_classes = [], tl_id = None,
          tl_attributes = replicate n ([120], VBoolean True), tl_content = None\<rparr>"
proof -
  define ln where "ln = [97, 91] @ concat (replicate n [120, 32::nat]) @ [93]"
  have ln: "ln = 97 # (91 # concat (replicate n [120, 32])) @ [93]"
    by (simp add: ln_def)
  have tr: "trim ln = ln"
    unfolding ln by (rule trim_no_ws_ends) (simp_all add: isWhiteSpace_def)
  define R where "R = concat (replicate n [120, 32::nat]) @ [93]"
  have d0: "ln = 97 # 91 # R" and d1: "drop 1 ln = 91 # R"
    and d2: "drop 2 ln = concat (replicate n [120, 32]) @ [93]"
    by (simp_all add: ln_def R_def)
  note al = attrs_loop_flags [OF d2, of "[]"]
  have d3: "drop (Suc (2 + 2 * n)) ln = []"
    using al drop_drop [of 1 "2 + 2 * n" ln] by simp
  have name: "line_readIdentifier ln 0 = ([97], 1)"
    using d0 by (simp add: line_readIdentifier_eq isIdentChar_def)
  have cl: "classes_loop ln [] 1 = ([], 1)"
    using d1 by (subst classes_loop.simps) (simp add: line_peek_def)
  have nohash: "line_peek ln 1 = [91]"
    using d1 by (simp add: line_peek_def)
  have end_block: "blocks_loop ln (replicate n ([120], VBoolean True)) (Suc (2 + 2 * n))
      = (replicate n ([120], VBoolean True), Suc (2 + 2 * n))"
    using d3 by (subst blocks_loop.simps) (simp add: line_peek_def)
  have close: "line_peek ln (2 + 2 * n) = [93]"
    using al by (simp add: line_peek_def)
  have sw: "line_skipWhitespace ln (Suc (2 + 2 * n)) = Suc (2 + 2 * n)"
    using d3 by (simp add: line_skipWhitespace_eq)
  have bl: "blocks_loop ln [] 1 = (replicate n ([120], VBoolean True), Suc (2 + 2 * n))"
    using al nohash close sw end_block
    by (subst blocks_loop.simps) (simp add: line_advance_def numeral_2_eq_2 [symmetric])
  have rc: "readContent ln (Suc (2 + 2 * n)) = None"
    using d3 by (simp add: readContent_def line_peek_def)
  have "parseTagLine s ln =
     Inr \<lparr>tl_name = [97], tl_classes = [], tl_id = None,
          tl_attributes = replicate n ([120], VBoolean True), tl_content = None\<rparr>"
    using tr name cl nohash bl rc sw d0
    by (simp add: parseTagLine_def)
  then show ?thesis
    by (simp only: ln_def)
qed


section \<open>The generator: options and state\<close>

text \<open>
  \<open>GeneratorOptions\<close>. The constructor fills every key, so the stored options are a
  record of values; the options of one \<open>generate\<close> call are partial, \<open>None\<close> for a key
  that is absent. \<open>indentSize\<close> is a natural number: the model leaves out negative and
  fractional sizes. \<open>prettier.Options\<close> is a dictionary that the generator only hands
  on to the external formatter.
\<close>

datatype indent_type = Spaces | Tabs

datatype prettier_value = PString string | PNumber nat | PBoolean bool

type_synonym prettier_options = "string \<rightharpoonup> prettier_value"

record generator_options =
  indentSize :: nat
  indentType :: indent_type
  preserveWhitespace :: bool
  minify :: bool
  usePrettier :: bool
  prettierOptions :: prettier_options

record partial_options =
  p_indentSize :: "nat option"
  p_indentType :: "indent_type option"
  p_preserveWhitespace :: "bool option"
  p_minify :: "bool option"
  p_usePrettier :: "bool option"
  p_prettierOptions :: "prettier_options option"

text \<open>The object spread \<open>{ ...base, ...given }\<close>: a key of \<open>given\<close> replaces the key of
  \<open>base\<close>; \<open>prettierOptions\<close> is replaced as a whole.\<close>

definition spread :: "generator_options \<Rightarrow> partial_options \<Rightarrow> generator_options" where
  "spread base given =
     \<lparr>indentSize = (case p_indentSize given of Some v \<Rightarrow> v | None \<Rightarrow> indentSize base),
      indentType = (case p_indentType given of Some v \<Rightarrow> v | None \<Rightarrow> indentType base),
      preserveWhitespace =
        (case p_preserveWhitespace given of Some v \<Rightarrow> v | None \<Rightarrow> preserveWhitespace base),
      minify = (case p_minify given of Some v \<Rightarrow> v | None \<Rightarrow> minify base),
      usePrettier = (case p_usePrettier given of Some v \<Rightarrow> v | None \<Rightarrow> usePrettier base),
      prettierOptions =
        (case p_prettierOptions given of Some v \<Rightarrow> v | None \<Rightarrow> prettierOptions base)\<rparr>"

definition defaultOptions :: generator_options where
  "defaultOptions =
     \<lparr>indentSize = 2, indentType = Spaces, preserveWhitespace = False, minify = False,
      usePrettier = True,
      prettierOptions =
        [''parser'' \<mapsto> PString ''html'', ''printWidth'' \<mapsto> PNumber 80,
         ''tabWidth'' \<mapsto> PNumber 2, ''useTabs'' \<mapsto> PBoolean False,
         ''htmlWhitespaceSensitivity'' \<mapsto> PString ''css'',
         ''bracketSameLine'' \<mapsto> PBoolean False]\<rparr>"

definition noOptions :: partial_options where
  "noOptions =
     \<lparr>p_indentSize = None, p_indentType = None, p_preserveWhitespace = None, p_minify = None,
      p_usePrettier = None, p_prettierOptions = None\<rparr>"

record generator =
  indentLevel :: nat
  options :: generator_options
  currentParentTag :: jsstring
  disposed :: bool
  outputBuffer :: "jsstring list"

text \<open>\<open>new HTMLGenerator(options)\<close>; \<open>new HTMLGenerator()\<close> is \<open>newGenerator noOptions\<close>.\<close>

definition newGenerator :: "partial_options \<Rightarrow> generator" where
  "newGenerator given =
     \<lparr>indentLevel = 0, options = spread defaultOptions given, currentParentTag = [],
      disposed = False, outputBuffer = []\<rparr>"


text \<open>\<open>this.outputBuffer.push(x1, ..., xn)\<close>.\<close>

definition push :: "jsstring list \<Rightarrow> generator \<Rightarrow> generator" where
  "push xs g = g\<lparr>outputBuffer := outputBuffer g @ xs\<rparr>"

definition indentString :: "generator \<Rightarrow> jsstring" where
  "indentString g =
     (if minify (options g) then []
      else
        (let size = (if indentSize (options g) = 0 then 2 else indentSize (options g)) in
         if indentType (options g) = Tabs then replicate (indentLevel g) 9
         else replicate (indentLevel g * size) 32))"

definition newLine :: "generator \<Rightarrow> jsstring" where
  "newLine g = (if minify (options g) then [] else [10])"

definition indent :: "generator \<Rightarrow> jsstring" where
  "indent g = (if minify (options g) then [] else indentString g)"

text \<open>\<open>text.replace(/c/g, r)\<close> for a single character \<open>c\<close>.\<close>

definition replaceAll :: "nat \<Rightarrow> jsstring \<Rightarrow> jsstring \<Rightarrow> jsstring" where
  "replaceAll c r s = concat (map (\<lambda>x. if x = c then r else [x]) s)"

definition escapeHtml :: "jsstring \<Rightarrow> jsstring" where
  "escapeHtml s =
     replaceAll 34 (str ''&quot;'')
       (replaceAll 62 (str ''&gt;'') (replaceAll 60 (str ''&lt;'') (replaceAll 38 (str ''&amp;'') s)))"

definition escapeAttributeValue :: "jsstring \<Rightarrow> jsstring" where
  "escapeAttributeValue s =
     replaceAll 34 (str ''&quot;'')
       (replaceAll 62 (str ''&gt;'') (replaceAll 60 (str ''&lt;'') (replaceAll 38 (str ''&amp;'') s)))"

text \<open>\<open>value.toString()\<close> of an attribute value that is not \<open>true\<close>.\<close>

definition valueToString :: "attr_value \<Rightarrow> jsstring" where
  "valueToString v =
     (case v of VString s \<Rightarrow> s | VBoolean b \<Rightarrow> if b then str ''true'' else str ''false'')"

definition generateAttributes ::
  "(jsstring \<times> attr_value) list \<Rightarrow> jsstring list \<Rightarrow> jsstring option \<Rightarrow> jsstring" where
  "generateAttributes attrs cls i =
     (let a1 = (if length cls > 0 then [str ''class=\"'' @ join [32] cls @ [34]] else []);
          a2 = (case i of
                  Some v \<Rightarrow> if v \<noteq> [] then a1 @ [str ''id=\"'' @ v @ [34]] else a1
                | None \<Rightarrow> a1);
          a3 = a2 @ map (\<lambda>(n, v). if v = VBoolean True then n
                                    else n @ str ''=\"'' @ escapeAttributeValue (valueToString v) @ [34])
                      attrs
      in if length a3 > 0 then [32] @ join [32] a3 else [])"

text \<open>\<open>s.toLowerCase()\<close> on the ASCII letters. The code units outside ASCII are left as
  they are; the result is compared with \<open>script\<close> and \<open>style\<close> only, and no code unit
  outside ASCII has a lower case made of the ASCII letters of these two words, so the
  comparison comes out as in JavaScript.\<close>

definition toLowerCase :: "jsstring \<Rightarrow> jsstring" where
  "toLowerCase s = map (\<lambda>c. if 65 \<le> c \<and> c \<le> 90 then c + 32 else c) s"

text \<open>\<open>['script', 'style'].includes(name.toLowerCase())\<close>.\<close>

definition isScriptOrStyle :: "jsstring \<Rightarrow> bool" where
  "isScriptOrStyle nm \<longleftrightarrow> toLowerCase nm \<in> set [str ''script'', str ''style'']"

definition generateDoctype :: "generator \<Rightarrow> jsstring \<Rightarrow> generator" where
  "generateDoctype g d = push [str ''<!DOCTYPE '' @ d @ str ''>''] g"

text \<open>The loop of \<open>generateText\<close> over the lines of a multi-line text, from index \<open>i\<close>;
  \<open>n\<close> is the number of lines.\<close>

fun generateText_lines :: "bool \<Rightarrow> nat \<Rightarrow> nat \<Rightarrow> jsstring list \<Rightarrow> generator \<Rightarrow> generator" where
  "generateText_lines shouldEscape n i [] g = g"
| "generateText_lines shouldEscape n i (l # ls) g =
     (if trim l = [] then generateText_lines shouldEscape n (i + 1) ls g
      else
        (let text = (if shouldEscape then escapeHtml (trim l) else trim l);
             g1 = (if i = 0 \<and> indentLevel g = 0 then push [text] g else push [indent g, text] g);
             g2 = (if i < n - 1 then push [newLine g1] g1 else g1)
         in generateText_lines shouldEscape n (i + 1) ls g2))"

definition generateText :: "generator \<Rightarrow> jsstring \<Rightarrow> generator" where
  "generateText g c =
     (let lines = split_lines c;
          shouldEscape = \<not> isScriptOrStyle (currentParentTag g)
      in if minify (options g) then
           push [if shouldEscape then escapeHtml (trim c) else trim c] g
         else if length lines = 1 then
           push [indent g, if shouldEscape then escapeHtml (trim c) else trim c] g
         else generateText_lines shouldEscape (length lines) 0 lines g)"

text \<open>Lines 126 to 135 of \<open>generateTag\<close>: the text of the inline form, if the tag has
  exactly one child, the child is a text, and the text as it would be emitted is
  shorter than 80 and has no line feed.\<close>

definition inlineText :: "jsstring \<Rightarrow> node list \<Rightarrow> jsstring option" where
  "inlineText tagName kids =
     (case kids of
        [Text textContent] \<Rightarrow>
          (let shouldEscape = \<not> isScriptOrStyle tagName;
               processedText = (if shouldEscape then escapeHtml textContent else trim textContent)
           in if length processedText < 80 \<and> 10 \<notin> set processedText then Some processedText
              else None)
      | _ \<Rightarrow> None)"

fun generateNode :: "generator \<Rightarrow> node \<Rightarrow> generator"
  and generateTag :: "generator \<Rightarrow> node \<Rightarrow> generator" where
  "generateNode g (Doctype d) = generateDoctype g d"
| "generateNode g (Tag n cls i attribs kids sc) = generateTag g (Tag n cls i attribs kids sc)"
| "generateNode g (Text c) = generateText g c"
| "generateTag g (Tag tagName cls i attribs kids sc) =
     (let attrs = generateAttributes attribs cls i in
      if sc then push [indent g, str ''<'', tagName, attrs, str '' />''] g
      else if length kids = 0 then
        push [indent g, str ''<'', tagName, attrs, str ''></'', tagName, str ''>''] g
      else
        (case inlineText tagName kids of
           Some processedText \<Rightarrow>
             push [indent g, str ''<'', tagName, attrs, str ''>'', processedText,
                   str ''</'', tagName, str ''>''] g
         | None \<Rightarrow>
             (let g1 = push [indent g, str ''<'', tagName, attrs, str ''>''] g;
                  g2 = (if \<not> minify (options g1)
                        then (push [newLine g1] g1)\<lparr>indentLevel := indentLevel g1 + 1\<rparr>
                        else g1);
                  g3 = fold (\<lambda>child h.
                          (let previousParent = currentParentTag h;
                               h1 = generateNode (h\<lparr>currentParentTag := tagName\<rparr>) child;
                               h2 = h1\<lparr>currentParentTag := previousParent\<rparr>
                           in if \<not> minify (options h2) then push [newLine h2] h2 else h2))
                        kids g2;
                  g4 = (if \<not> minify (options g3)
                        then g3\<lparr>indentLevel := indentLevel g3 - 1\<rparr> else g3)
              in push [indent g4, str ''</'', tagName, str ''>''] g4)))"
| "generateTag g (Doctype d) = g"
| "generateTag g (Text c) = g"







section \<open>Lemmas about the generator\<close>

text \<open>\<open>extends g g'\<close>: the generator \<open>g'\<close> is \<open>g\<close> with more text in the buffer.\<close>

definition extends :: "generator \<Rightarrow> generator \<Rightarrow> bool" where
  "extends g g' \<longleftrightarrow>
     options g' = options g \<and> indentLevel g' = indentLevel g \<and>
     currentParentTag g' = currentParentTag g \<and> disposed g' = disposed g \<and>
     (\<exists>xs. outputBuffer g' = outputBuffer g @ xs)"

lemma extends_refl [simp]: "extends g g"
  by (simp add: extends_def)

lemma extends_trans: "extends g g' \<Longrightarrow> extends g' g'' \<Longrightarrow> extends g g''"
  by (auto simp: extends_def)

lemma extends_push [simp]: "extends g (push xs g)"
  by (simp add: extends_def push_def)

lemma push_simps [simp]:
  "options (push xs g) = options g" "indentLevel (push xs g) = indentLevel g"
  "currentParentTag (push xs g) = currentParentTag g" "disposed (push xs g) = disposed g"
  "outputBuffer (push xs g) = outputBuffer g @ xs"
  by (simp_all add: push_def)

lemma indent_cong:
  "options g' = options g \<Longrightarrow> indentLevel g' = indentLevel g \<Longrightarrow> indent g' = indent g"
  by (simp add: indent_def indentString_def)

lemma newLine_cong: "options g' = options g \<Longrightarrow> newLine g' = newLine g"
  by (simp add: newLine_def)

lemma generateText_lines_extends: "extends g (generateText_lines e n i ls g)"
proof (induction ls arbitrary: i g)
  case Nil
  show ?case by simp
next
  case (Cons l ls)
  show ?case
  proof (cases "trim l = []")
    case True
    with Cons show ?thesis by simp
  next
    case False
    let ?text = "if e then escapeHtml (trim l) else trim l"
    let ?g1 = "if i = 0 \<and> indentLevel g = 0 then push [?text] g else push [indent g, ?text] g"
    let ?g2 = "if i < n - 1 then push [newLine ?g1] ?g1 else ?g1"
    have "extends g ?g1"
      by simp
    moreover have "extends ?g1 ?g2"
      by simp
    moreover have "extends ?g2 (generateText_lines e n (i + 1) ls ?g2)"
      by (rule Cons.IH)
    ultimately have "extends g (generateText_lines e n (i + 1) ls ?g2)"
      by (blast intro: extends_trans)
    with False show ?thesis
      by (simp add: Let_def)
  qed
qed

lemma generateText_extends: "extends g (generateText g c)"
  by (simp add: generateText_def Let_def generateText_lines_extends)

text \<open>One iteration of the loop of \<open>generateTag\<close> over the children, given what
  \<open>generateNode\<close> does on the child.\<close>

lemma child_step_extends:
  assumes "\<And>h. extends h (generateNode h k)"
  shows "extends h
    (let previousParent = currentParentTag h;
         h1 = generateNode (h\<lparr>currentParentTag := tagName\<rparr>) k;
         h2 = h1\<lparr>currentParentTag := previousParent\<rparr>
     in if \<not> minify (options h2) then push [newLine h2] h2 else h2)"
  using assms [of "h\<lparr>currentParentTag := tagName\<rparr>"]
  by (auto simp: extends_def Let_def)

lemma children_fold_extends:
  assumes "\<And>k h. k \<in> set kids \<Longrightarrow> extends h (generateNode h k)"
  shows "extends g
    (fold (\<lambda>child h.
        (let previousParent = currentParentTag h;
             h1 = generateNode (h\<lparr>currentParentTag := tagName\<rparr>) child;
             h2 = h1\<lparr>currentParentTag := previousParent\<rparr>
         in if \<not> minify (options h2) then push [newLine h2] h2 else h2)) kids g)"
  using assms
proof (induction kids arbitrary: g)
  case Nil
  show ?case by simp
next
  case (Cons k kids)
  have "extends g
    (let previousParent = currentParentTag g;
         h1 = generateNode (g\<lparr>currentParentTag := tagName\<rparr>) k;
         h2 = h1\<lparr>currentParentTag := previousParent\<rparr>
     in if \<not> minify (options h2) then push [newLine h2] h2 else h2)"
    by (rule child_step_extends) (simp add: Cons.prems)
  moreover note Cons.IH [OF Cons.prems, simplified]
  ultimately show ?case
    by (auto intro: extends_trans)
qed

lemma generateNode_extends: "extends g (generateNode g n)"
proof (induction n arbitrary: g)
  case (Doctype d)
  show ?case by (simp add: generateDoctype_def)
next
  case (Text c)
  show ?case by (simp add: generateText_extends)
next
  case (Tag tagName cls i attribs kids sc)
  let ?step = "\<lambda>child h.
        (let previousParent = currentParentTag h;
             h1 = generateNode (h\<lparr>currentParentTag := tagName\<rparr>) child;
             h2 = h1\<lparr>currentParentTag := previousParent\<rparr>
         in if \<not> minify (options h2) then push [newLine h2] h2 else h2)"
  have kids: "\<And>k h. k \<in> set kids \<Longrightarrow> extends h (generateNode h k)"
    by (rule Tag.IH)
  have fold_ext: "\<And>h. extends h (fold ?step kids h)"
    by (rule children_fold_extends) (rule kids)
  show ?case
  proof (cases "sc \<or> length kids = 0 \<or> inlineText tagName kids \<noteq> None")
    case True
    then show ?thesis
      by (auto simp: Let_def)
  next
    case False
    let ?attrs = "generateAttributes attribs cls i"
    let ?g1 = "push [indent g, str ''<'', tagName, ?attrs, str ''>''] g"
    let ?g2 = "if \<not> minify (options ?g1)
               then (push [newLine ?g1] ?g1)\<lparr>indentLevel := indentLevel ?g1 + 1\<rparr> else ?g1"
    let ?g3 = "fold ?step kids ?g2"
    let ?g4 = "if \<not> minify (options ?g3) then ?g3\<lparr>indentLevel := indentLevel ?g3 - 1\<rparr> else ?g3"
    have e3: "extends ?g2 ?g3"
      by (rule fold_ext)
    have "extends g ?g4"
      using e3 by (auto simp: extends_def)
    then have "extends g (push [indent ?g4, str ''</'', tagName, str ''>''] ?g4)"
      by (blast intro: extends_trans extends_push)
    moreover have "generateNode g (Tag tagName cls i attribs kids sc) =
        push [indent ?g4, str ''</'', tagName, str ''>''] ?g4"
      using False by (simp add: Let_def)
    ultimately show ?thesis
      by (simp only:)
  qed
qed


section \<open>Predicates of the specification\<close>

text \<open>The invariant of a node and of all nodes below it: \<open>selfClosing\<close> is set exactly
  for the names of the fixed list.\<close>

fun selfClosing_by_name :: "node \<Rightarrow> bool" where
  "selfClosing_by_name (Doctype d) = True"
| "selfClosing_by_name (Tag n cls i attrs kids sc) =
     ((sc \<longleftrightarrow> n \<in> set selfClosingNames) \<and> list_all selfClosing_by_name kids)"
| "selfClosing_by_name (Text t) = True"

text \<open>The size in bytes of the UTF-8 encoding of a string of UTF-16 code units: one
  byte below U+0080, two below U+0800, three otherwise, and four for a surrogate
  pair, that is two for each of its halves.\<close>

definition utf8_unit_bytes :: "nat \<Rightarrow> nat" where
  "utf8_unit_bytes c =
     (if c < 128 then 1 else if c < 2048 then 2 else if 55296 \<le> c \<and> c < 57344 then 2 else 3)"

definition utf8_length :: "jsstring \<Rightarrow> nat" where
  "utf8_length s = sum_list (map utf8_unit_bytes s)"

text \<open>The replacement that the specification gives for one character of a text.\<close>

definition escapeChar :: "nat \<Rightarrow> jsstring" where
  "escapeChar c =
     (if c = 38 then str ''&amp;'' else if c = 60 then str ''&lt;''
      else if c = 62 then str ''&gt;'' else if c = 34 then str ''&quot;'' else [c])"

text \<open>What \<open>generateNode\<close> adds to the buffer.\<close>

definition pieces :: "generator \<Rightarrow> node \<Rightarrow> jsstring list" where
  "pieces g n = drop (length (outputBuffer g)) (outputBuffer (generateNode g n))"

text \<open>The generator in which \<open>generateTag\<close> renders the children of a tag that it
  renders as a block, lines 140 to 147: one level deeper unless minifying, and with
  the tag as the parent.\<close>

definition under :: "jsstring \<Rightarrow> generator \<Rightarrow> generator" where
  "under tagName g =
     g\<lparr>indentLevel := (if minify (options g) then indentLevel g else indentLevel g + 1),
       currentParentTag := tagName\<rparr>"

text \<open>What the statement \<open>if (!this.options.minify) this.outputBuffer.push(this.newLine)\<close>
  adds to the buffer.\<close>

definition lineFeed :: "generator \<Rightarrow> jsstring list" where
  "lineFeed g = (if minify (options g) then [] else [newLine g])"

text \<open>
  The pieces of a text, written out. \<open>raw\<close> says that the parent is \<open>script\<close> or
  \<open>style\<close>. When minifying, and for a content without a line feed, the text is one
  piece, the trimmed content, escaped unless \<open>raw\<close>, after the indentation unless
  minifying. A content of several lines gives, for each line that is not blank, the
  indentation (left out on the first line at level 0), the trimmed line, escaped
  unless \<open>raw\<close>, and a line feed unless the line is the last one; \<open>text_line\<close> is the
  share of the line with index \<open>fst il\<close> and content \<open>snd il\<close> among \<open>n\<close> lines.
\<close>

definition text_line :: "bool \<Rightarrow> generator \<Rightarrow> nat \<Rightarrow> nat \<times> jsstring \<Rightarrow> jsstring list" where
  "text_line raw g n il =
     (if trim (snd il) = [] then []
      else (if fst il = 0 \<and> indentLevel g = 0 then [] else [indent g]) @
           [if raw then trim (snd il) else escapeHtml (trim (snd il))] @
           (if fst il < n - 1 then [[10]] else []))"

definition text_pieces :: "bool \<Rightarrow> generator \<Rightarrow> jsstring \<Rightarrow> jsstring list" where
  "text_pieces raw g c =
     (if minify (options g) then [if raw then trim c else escapeHtml (trim c)]
      else if 10 \<notin> set c then [indent g, if raw then trim c else escapeHtml (trim c)]
      else concat (map (text_line raw g (length (split_lines c))) (enumerate 0 (split_lines c))))"

lemma replaceAll_append: "replaceAll c r (xs @ ys) = replaceAll c r xs @ replaceAll c r ys"
  by (simp add: replaceAll_def)

lemma replaceAll_Cons: "replaceAll c r (x # xs) = (if x = c then r else [x]) @ replaceAll c r xs"
  by (simp add: replaceAll_def)

lemma replaceAll_Nil [simp]: "replaceAll c r [] = []"
  by (simp add: replaceAll_def)

lemma escapeHtml_chars: "escapeHtml s = concat (map escapeChar s)"
proof (induction s)
  case Nil
  show ?case by (simp add: escapeHtml_def)
next
  case (Cons x xs)
  have "escapeHtml (x # xs) = escapeChar x @ escapeHtml xs"
    by (simp add: escapeHtml_def escapeChar_def replaceAll_Cons replaceAll_append str_def)
  with Cons show ?case by simp
qed

lemma length_split_lines: "length (split_lines c) = 1 \<longleftrightarrow> 10 \<notin> set c"
proof -
  have "length (split_lines c) = Suc (length (filter (\<lambda>x. x = 10) c))"
    by (induction c) (auto split: list.splits)
  then show ?thesis
    by (auto simp: filter_empty_conv)
qed

text \<open>The text of a single text child as \<open>generateTag\<close> would emit it inline: escaped,
  or trimmed under \<open>script\<close> and \<open>style\<close>.\<close>

definition processedText :: "jsstring \<Rightarrow> jsstring \<Rightarrow> jsstring" where
  "processedText tagName c = (if isScriptOrStyle tagName then trim c else escapeHtml c)"

lemma inlineText_Some:
  "length (processedText n c) < 80 \<Longrightarrow> 10 \<notin> set (processedText n c) \<Longrightarrow>
     inlineText n [Text c] = Some (processedText n c)"
  by (auto simp: inlineText_def processedText_def Let_def split: if_splits)

lemma inlineText_None:
  "\<not> (\<exists>c. kids = [Text c] \<and> length (processedText n c) < 80 \<and> 10 \<notin> set (processedText n c))
     \<Longrightarrow> inlineText n kids = None"
  by (auto simp: inlineText_def processedText_def Let_def split: list.splits node.splits)

lemma push_push: "push ys (push xs g) = push (xs @ ys) g"
  by (simp add: push_def)

lemma push_Nil [simp]: "push [] g = g"
  by (simp add: push_def)

lemma text_line_cong:
  "options g' = options g \<Longrightarrow> indentLevel g' = indentLevel g \<Longrightarrow>
     text_line raw g' n = text_line raw g n"
  using indent_cong [of g' g] by (auto simp: text_line_def fun_eq_iff)

lemma generateText_lines_pieces:
  "\<not> minify (options g) \<Longrightarrow>
     generateText_lines e n i ls g = push (concat (map (text_line (\<not> e) g n) (enumerate i ls))) g"
proof (induction ls arbitrary: i g)
  case Nil
  show ?case by simp
next
  case (Cons l ls)
  show ?case
  proof (cases "trim l = []")
    case True
    with Cons show ?thesis
      by (simp add: text_line_def)
  next
    case False
    define g2 where "g2 = push (text_line (\<not> e) g n (i, l)) g"
    have same: "options g2 = options g" "indentLevel g2 = indentLevel g"
      by (simp_all add: g2_def)
    have nm: "\<not> minify (options g2)"
      using Cons.prems same by simp
    have step: "generateText_lines e n i (l # ls) g = generateText_lines e n (i + 1) ls g2"
      using False Cons.prems
      by (simp add: Let_def g2_def text_line_def push_def newLine_def)
    have tl: "text_line (\<not> e) g2 n = text_line (\<not> e) g n"
      by (rule text_line_cong [OF same])
    note step
    also have "generateText_lines e n (i + 1) ls g2
        = push (concat (map (text_line (\<not> e) g2 n) (enumerate (i + 1) ls))) g2"
      by (rule Cons.IH [OF nm])
    also have "\<dots> = push (text_line (\<not> e) g n (i, l) @
        concat (map (text_line (\<not> e) g n) (enumerate (Suc i) ls))) g"
      unfolding tl by (simp add: g2_def push_push)
    finally show ?thesis
      by simp
  qed
qed

lemma generateText_pieces:
  "generateText g c = push (text_pieces (isScriptOrStyle (currentParentTag g)) g c) g"
  using length_split_lines [of c]
  by (auto simp: generateText_def text_pieces_def Let_def generateText_lines_pieces)

lemma text_pieces_cong:
  "options g' = options g \<Longrightarrow> indentLevel g' = indentLevel g \<Longrightarrow>
     text_pieces raw g' c = text_pieces raw g c"
  using indent_cong [of g' g] text_line_cong [of g' g raw "length (split_lines c)"]
  by (simp add: text_pieces_def)

lemma pieces_push: "generateNode g n = push xs g \<Longrightarrow> pieces g n = xs"
  by (simp add: pieces_def)

lemma generateNode_pieces: "generateNode g n = push (pieces g n) g"
proof -
  from generateNode_extends [of g n] obtain xs where
    e: "options (generateNode g n) = options g" "indentLevel (generateNode g n) = indentLevel g"
      "currentParentTag (generateNode g n) = currentParentTag g"
      "disposed (generateNode g n) = disposed g"
      "outputBuffer (generateNode g n) = outputBuffer g @ xs"
    by (auto simp: extends_def)
  then have "pieces g n = xs"
    by (simp add: pieces_def)
  with e show ?thesis
    by (intro generator.equality) (simp_all add: push_def)
qed

lemma lineFeed_cong: "options g' = options g \<Longrightarrow> lineFeed g' = lineFeed g"
  by (simp add: lineFeed_def newLine_def)

lemma children_fold_pieces:
  assumes cong: "\<And>k h h'. k \<in> set kids \<Longrightarrow> options h' = options h \<Longrightarrow>
      indentLevel h' = indentLevel h \<Longrightarrow> currentParentTag h' = currentParentTag h \<Longrightarrow>
      pieces h' k = pieces h k"
    and hc: "options h0 = options hc" "indentLevel h0 = indentLevel hc" "currentParentTag hc = tagName"
  shows "fold (\<lambda>child h.
        (let previousParent = currentParentTag h;
             h1 = generateNode (h\<lparr>currentParentTag := tagName\<rparr>) child;
             h2 = h1\<lparr>currentParentTag := previousParent\<rparr>
         in if \<not> minify (options h2) then push [newLine h2] h2 else h2)) kids h0
    = push (concat (map (\<lambda>k. pieces hc k @ lineFeed hc) kids)) h0"
  using assms
proof (induction kids arbitrary: h0)
  case Nil
  show ?case by simp
next
  case (Cons k kids)
  let ?step = "\<lambda>child h.
        (let previousParent = currentParentTag h;
             h1 = generateNode (h\<lparr>currentParentTag := tagName\<rparr>) child;
             h2 = h1\<lparr>currentParentTag := previousParent\<rparr>
         in if \<not> minify (options h2) then push [newLine h2] h2 else h2)"
  define h1 where "h1 = ?step k h0"
  have pk: "pieces (h0\<lparr>currentParentTag := tagName\<rparr>) k = pieces hc k"
    by (rule Cons.prems(1)) (simp_all add: Cons.prems(2-))
  have "generateNode (h0\<lparr>currentParentTag := tagName\<rparr>) k
      = push (pieces hc k) (h0\<lparr>currentParentTag := tagName\<rparr>)"
    using generateNode_pieces [of "h0\<lparr>currentParentTag := tagName\<rparr>" k] pk by simp
  then have step: "h1 = push (pieces hc k @ lineFeed hc) h0"
    using Cons.prems(2) by (simp add: h1_def Let_def push_def lineFeed_def newLine_def)
  have "fold ?step kids h1 = push (concat (map (\<lambda>k. pieces hc k @ lineFeed hc) kids)) h1"
  proof (rule Cons.IH)
    show "pieces h' k' = pieces h k'"
      if "k' \<in> set kids" "options h' = options h" "indentLevel h' = indentLevel h"
        "currentParentTag h' = currentParentTag h" for k' h h'
      using that by (intro Cons.prems(1)) simp_all
  qed (simp_all add: step Cons.prems(2-))
  moreover have "fold ?step (k # kids) h0 = fold ?step kids h1"
    by (simp only: fold_simps comp_def h1_def)
  ultimately show ?case
    by (simp only: step push_push list.map concat.simps append_assoc)
qed

lemma generateTag_block_cong:
  assumes cong: "\<And>k h h'. k \<in> set kids \<Longrightarrow> options h' = options h \<Longrightarrow>
      indentLevel h' = indentLevel h \<Longrightarrow> currentParentTag h' = currentParentTag h \<Longrightarrow>
      pieces h' k = pieces h k"
    and "kids \<noteq> []" "inlineText n kids = None"
  shows "generateTag g (Tag n cls i attribs kids False) =
    push ([indent g, str ''<'', n, generateAttributes attribs cls i, str ''>''] @ lineFeed g @
          concat (map (\<lambda>k. pieces (under n g) k @ lineFeed g) kids) @
          [indent g, str ''</'', n, str ''>'']) g"
proof -
  let ?step = "\<lambda>child h.
        (let previousParent = currentParentTag h;
             h1 = generateNode (h\<lparr>currentParentTag := n\<rparr>) child;
             h2 = h1\<lparr>currentParentTag := previousParent\<rparr>
         in if \<not> minify (options h2) then push [newLine h2] h2 else h2)"
  let ?open = "[indent g, str ''<'', n, generateAttributes attribs cls i, str ''>'']"
  define mid where "mid = concat (map (\<lambda>k. pieces (under n g) k @ lineFeed g) kids)"
  define g1 where "g1 = push ?open g"
  define g2 where "g2 = (if \<not> minify (options g1)
             then (push [newLine g1] g1)\<lparr>indentLevel := indentLevel g1 + 1\<rparr> else g1)"
  define g3 where "g3 = fold ?step kids g2"
  define g4 where "g4 = (if \<not> minify (options g3) then g3\<lparr>indentLevel := indentLevel g3 - 1\<rparr> else g3)"
  have eq: "generateTag g (Tag n cls i attribs kids False) =
      push [indent g4, str ''</'', n, str ''>''] g4"
    using assms(2,3) by (simp add: Let_def g1_def g2_def g3_def g4_def)
  have lf: "lineFeed (under n g) = lineFeed g"
    by (rule lineFeed_cong) (simp add: under_def)
  have g2': "g2 = (push (?open @ lineFeed g) g)\<lparr>indentLevel := indentLevel (under n g)\<rparr>"
    by (simp add: g2_def g1_def under_def lineFeed_def push_def newLine_def)
  have hc: "options g2 = options (under n g)" "indentLevel g2 = indentLevel (under n g)"
    "currentParentTag (under n g) = n"
    by (simp_all add: g2' under_def)
  have "g3 = push (concat (map (\<lambda>k. pieces (under n g) k @ lineFeed (under n g)) kids)) g2"
    unfolding g3_def by (rule children_fold_pieces [OF cong hc])
  then have g3': "g3 = push mid g2"
    unfolding lf mid_def .
  have g4': "g4 = push (?open @ lineFeed g @ mid) g"
    unfolding g4_def g3' g2' by (simp add: under_def push_def)
  have "indent g4 = indent g"
    unfolding g4' by (rule indent_cong) simp_all
  then show ?thesis
    unfolding eq g4' mid_def [symmetric] by (simp add: push_push)
qed

lemma pieces_cong:
  "options g' = options g \<Longrightarrow> indentLevel g' = indentLevel g \<Longrightarrow>
     currentParentTag g' = currentParentTag g \<Longrightarrow> pieces g' n = pieces g n"
proof (induction n arbitrary: g g')
  case (Doctype d)
  show ?case
    by (simp add: pieces_def generateDoctype_def)
next
  case (Text c)
  have "pieces h (Text c) = text_pieces (isScriptOrStyle (currentParentTag h)) h c" for h
    by (rule pieces_push) (simp add: generateText_pieces)
  with Text text_pieces_cong [of g' g "isScriptOrStyle (currentParentTag g)" c] show ?case
    by simp
next
  case (Tag tagName cls i attribs kids sc)
  have ind: "indent g' = indent g"
    using Tag.prems by (intro indent_cong) simp_all
  have lf: "lineFeed g' = lineFeed g"
    using Tag.prems by (intro lineFeed_cong) simp
  show ?case
  proof (cases "sc \<or> length kids = 0 \<or> inlineText tagName kids \<noteq> None")
    case True
    then show ?thesis
      using ind by (auto simp: pieces_def Let_def)
  next
    case False
    have cong: "\<And>k h h'. k \<in> set kids \<Longrightarrow> options h' = options h \<Longrightarrow>
        indentLevel h' = indentLevel h \<Longrightarrow> currentParentTag h' = currentParentTag h \<Longrightarrow>
        pieces h' k = pieces h k"
      by (rule Tag.IH)
    have sc: "sc = False" "kids \<noteq> []" "inlineText tagName kids = None"
      using False by auto
    have blk: "pieces h (Tag tagName cls i attribs kids sc) =
        [indent h, str ''<'', tagName, generateAttributes attribs cls i, str ''>''] @ lineFeed h @
        concat (map (\<lambda>k. pieces (under tagName h) k @ lineFeed h) kids) @
        [indent h, str ''</'', tagName, str ''>'']" for h
    proof (rule pieces_push)
      have "generateNode h (Tag tagName cls i attribs kids sc)
          = generateTag h (Tag tagName cls i attribs kids False)"
        unfolding sc(1) by (simp only: generateNode.simps)
      also note generateTag_block_cong [of kids tagName h cls i attribs, OF cong sc(2,3)]
      finally show "generateNode h (Tag tagName cls i attribs kids sc) =
          push ([indent h, str ''<'', tagName, generateAttributes attribs cls i, str ''>''] @
                lineFeed h @
                concat (map (\<lambda>k. pieces (under tagName h) k @ lineFeed h) kids) @
                [indent h, str ''</'', tagName, str ''>'']) h" .
    qed
    have kk: "pieces (under tagName g') k = pieces (under tagName g) k" if "k \<in> set kids" for k
      using that Tag.prems by (intro cong) (simp_all add: under_def)
    have m: "map (\<lambda>k. pieces (under tagName g') k @ lineFeed g) kids
        = map (\<lambda>k. pieces (under tagName g) k @ lineFeed g) kids"
      by (rule map_cong [OF refl]) (simp add: kk)
    show ?thesis
      unfolding blk ind lf m by (rule refl)
  qed
qed

lemma generateTag_block_pieces:
  assumes "kids \<noteq> []" "inlineText n kids = None"
  shows "generateTag g (Tag n cls i attribs kids False) =
    push ([indent g, str ''<'', n, generateAttributes attribs cls i, str ''>''] @ lineFeed g @
          concat (map (\<lambda>k. pieces (under n g) k @ lineFeed g) kids) @
          [indent g, str ''</'', n, str ''>'']) g"
  using assms by (intro generateTag_block_cong pieces_cong)

lemma escapeHtml_ampersands:
  "escapeHtml (replicate k 38) = concat (replicate k (str ''&amp;''))"
  by (simp add: escapeHtml_chars escapeChar_def map_replicate_const)

lemma length_ampersands: "length (concat (replicate k (str ''&amp;''))) = 5 * k"
  by (induction k) (simp_all add: str_def)

lemma no_lf_ampersands: "10 \<notin> set (concat (replicate k (str ''&amp;'')))"
  using set_concat_replicate [of k "str ''&amp;''"] by (auto simp: str_def)

lemma not_script_p: "\<not> isScriptOrStyle (str ''p'')"
  by (simp add: isScriptOrStyle_def toLowerCase_def str_def)

lemmas generator_eval =
  newGenerator_def spread_def defaultOptions_def noOptions_def indent_def indentString_def
  newLine_def push_def generateAttributes_def generateDoctype_def Let_def

lemmas text_eval =
  text_pieces_def text_line_def lineFeed_def under_def processedText_def isScriptOrStyle_def
  toLowerCase_def escapeHtml_chars escapeChar_def str_def trim_def trimStart_def trimEnd_def
  isWhiteSpace_def enumerate_eq_zip







lemma parseSource_br_x:
  "parseSource (str ''br: x'') = Inr [Tag (str ''br'') [] None [] [Text (str ''x'')] True]"
proof -
  have pt: "parseTagLine s (str ''br: x'') =
      Inr \<lparr>tl_name = str ''br'', tl_classes = [], tl_id = None, tl_attributes = [],
           tl_content = Some (str ''x'')\<rparr>" for s
    by (simp add: tagline_eval str_def)
  have "trim (str ''br: x'') = str ''br: x''"
    by (simp add: str_def trim_def trimStart_def trimEnd_def isWhiteSpace_def)
  from parseSource_tag_line [OF _ _ this _ _ _ _ pt] show ?thesis
    by (simp add: str_def startsWithLetter_def isAsciiLetter_def tagNode_def
          selfClosingNames_def stripQuotes_def startsWith_def endsWith_def)
qed

lemma parse_total: "\<exists>ns. parse s = Inr ns"
  using parseChildren_loop_result [of "\<lambda>n. True" "- 1" "[]" s]
  by (auto simp: parse_def parseChildren_def)

lemmas parse_eval =
  parseSource_def constructor_def parse_def parseChildren_def parseChildren_loop.simps
  peek_def advance_def skipNewline_def getIndentLevel_def getIndentLevel_loop.simps
  skipIndentation.simps readLine_def readLine_loop.simps
  parseMultilineText_def parseMultilineText_loop.simps
  markerText_def inlineChildren_def tagNode_def selfClosingNames_def startsWithLetter_def
  isAsciiLetter_def tagline_eval str_def

lemmas lines_eval =
  rest_def after_block_def block_lines_def kept_lines_def in_block_def indent_of_def
  trim_def trimStart_def trimEnd_def isWhiteSpace_def str_def

lemmas nodes_eval =
  lines_eval first_line_def next_lines_def skip_lf_def inline_nodes_def inline_rest_def
  tagLine_def start_def tagline_eval tagNode_def selfClosingNames_def startsWithLetter_def
  isAsciiLetter_def

section \<open>Claims about the parser\<close>

text \<open>
  C1, as amended. For every parsed document, every \<open>Tag\<close> node of the tree, at any
  depth, has \<open>selfClosing\<close> set exactly if its name is one of \<open>br\<close>, \<open>hr\<close>, \<open>img\<close>,
  \<open>input\<close>, \<open>meta\<close>, \<open>link\<close>, \<open>source\<close>; and the generator renders a node with
  \<open>selfClosing\<close> set as \<open><name attrs />\<close>, without a closing tag and without its
  children, whatever children the node has.
\<close>

theorem C1_selfClosing_by_name:
  "(parseSource src = Inr ns \<longrightarrow> list_all selfClosing_by_name ns) \<and>
   generateTag g (Tag n cls i attribs kids True) =
     push [indent g, str ''<'', n, generateAttributes attribs cls i, str '' />''] g"
proof
  show "parseSource src = Inr ns \<longrightarrow> list_all selfClosing_by_name ns"
  proof
    assume a: "parseSource src = Inr ns"
    then obtain s where s: "constructor src = Inr s" "parse s = Inr ns"
      by (auto simp: parseSource_def split: sum.splits)
    have "\<exists>ns s'. parseChildren_loop (- 1) [] s = Inr (ns, s') \<and> input s' = input s \<and>
        rest s' = after_block (- 1) (rest s) \<and>
        (list_all selfClosing_by_name [] \<longrightarrow> list_all selfClosing_by_name ns)"
      by (rule parseChildren_loop_result) (simp_all add: tagNode_def)
    with s(2) show "list_all selfClosing_by_name ns"
      by (auto simp: parse_def parseChildren_def)
  qed
next
  show "generateTag g (Tag n cls i attribs kids True) =
     push [indent g, str ''<'', n, generateAttributes attribs cls i, str '' />''] g"
    by (simp add: Let_def)
qed

text \<open>The theorem at the source \<open>br: x\<close> and, in a new generator, at the node that it
  parses to.\<close>

theorem C1_selfClosing_by_name_witness:
  "parseSource (str ''br: x'') = Inr [Tag (str ''br'') [] None [] [Text (str ''x'')] True] \<and>
   list_all selfClosing_by_name [Tag (str ''br'') [] None [] [Text (str ''x'')] True] \<and>
   outputBuffer (generateTag (newGenerator noOptions)
       (Tag (str ''br'') [] None [] [Text (str ''x'')] True)) =
     [[], str ''<'', str ''br'', [], str '' />'']"
  using C1_selfClosing_by_name [of "str ''br: x''"
      "[Tag (str ''br'') [] None [] [Text (str ''x'')] True]" "newGenerator noOptions"
      "str ''br''" "[]" None "[]" "[Text (str ''x'')]"]
    parseSource_br_x
  by (simp add: generator_eval)

text \<open>C1 as stated fails: the source \<open>br: x\<close> parses to a node with \<open>selfClosing\<close> set
  that has a child.\<close>

theorem C1_counterexample:
  "parseSource (str ''br: x'') = Inr [Tag (str ''br'') [] None [] [Text (str ''x'')] True] \<and>
   selfClosing (Tag (str ''br'') [] None [] [Text (str ''x'')] True) \<and>
   children (Tag (str ''br'') [] None [] [Text (str ''x'')] True) \<noteq> []"
  using parseSource_br_x by simp

text \<open>
  C2. The claim asks for a \<open>ParseError\<close> on an attribute block of more than 50 entries.
  The parser returns a tag with all 51 attributes for the line \<open>a[x x ... x ]\<close> with
  51 flags: the limit \<open>maxAttributes\<close> is declared and never compared with anything.
\<close>

theorem C2_51_attributes_accepted:
  "maxAttributes = 50 \<and>
   parseSource (str ''a['' @ concat (replicate 51 (str ''x '')) @ str '']'') =
     Inr [Tag (str ''a'') [] None (replicate 51 (str ''x'', VBoolean True)) [] False]"
proof -
  let ?ln = "[97, 91] @ concat (replicate 51 [120, 32::nat]) @ [93]"
  have eq: "str ''a['' @ concat (replicate 51 (str ''x '')) @ str '']'' = ?ln"
    by (simp add: str_def)
  have nolf: "10 \<notin> set ?ln" "0 \<notin> set ?ln" "65534 \<notin> set ?ln" "65535 \<notin> set ?ln"
    using set_concat_replicate [of 51 "[120, 32::nat]"] by auto
  have len: "length ?ln \<le> 10 * 1024 * 1024"
    by (simp add: length_concat sum_list_replicate)
  have "?ln = 97 # (91 # concat (replicate 51 [120, 32])) @ [93]"
    by simp
  then have tr: "trim ?ln = ?ln"
    using trim_no_ws_ends [of 97 93 "91 # concat (replicate 51 [120, 32])"]
    by (simp add: isWhiteSpace_def)
  have sl: "startsWithLetter ?ln"
    by (simp add: startsWithLetter_def isAsciiLetter_def)
  from parseSource_tag_line [OF sl nolf(1) tr len nolf(2-4) parseTagLine_flags [of _ 51]]
  have "parseSource ?ln = Inr [Tag [97] [] None (replicate 51 ([120], VBoolean True)) [] False]"
    by (simp add: tagNode_def selfClosingNames_def str_def)
  then show ?thesis
    by (simp add: maxAttributes_def str_def)
qed


text \<open>
  C3. The claim asks for a \<open>ParseError\<close> on an identifier of more than 100 characters.
  The parser returns a tag whose name is the whole identifier for a line of 101
  letters \<open>a\<close>: \<open>parseTagLine\<close> reads identifiers with its own closure, which has no
  limit; the method \<open>readIdentifier\<close> of the class, which has the limit, is never called.
\<close>

theorem C3_long_identifier_accepted:
  "parseSource (replicate 101 97) = Inr [Tag (replicate 101 97) [] None [] [] False]"
proof -
  have pt: "parseTagLine s (replicate 101 97) =
      Inr \<lparr>tl_name = replicate 101 97, tl_classes = [], tl_id = None, tl_attributes = [],
           tl_content = None\<rparr>" for s
    by (simp add: tagline_eval)
  have tr: "trim (replicate 101 97) = replicate 101 97"
    by (simp add: trim_def trimStart_def trimEnd_def isWhiteSpace_def)
  have "replicate (Suc 100) 97 = 97 # replicate 100 (97::nat)"
    by (rule replicate_Suc)
  then have "replicate 101 97 = 97 # replicate 100 (97::nat)"
    by simp
  then have sl: "startsWithLetter (replicate 101 97)"
    by (simp add: startsWithLetter_def isAsciiLetter_def)
  have "replicate 101 97 \<notin> set selfClosingNames"
    by (auto simp: selfClosingNames_def str_def dest!: arg_cong [where f = length])
  with parseSource_tag_line [OF sl _ tr _ _ _ _ pt] show ?thesis
    by (simp add: tagNode_def)
qed

text \<open>
  C4. The claim asks for a \<open>ParseError\<close> that names the expected token when a quoted
  attribute value is not closed on its line or an attribute block has no \<open>]\<close>. The
  parser accepts both: the value and the block end with the line. \<open>parseTagLine\<close>
  skips a closing quote and a closing bracket only if they are there; the method
  \<open>readString\<close> of the class, which raises the error for the string, is never called.
\<close>

theorem C4_unterminated_accepted:
  "parseSource (str ''a[b=\"c'') =
     Inr [Tag (str ''a'') [] None [(str ''b'', VString (str ''c''))] [] False] \<and>
   parseSource (str ''a[b'') =
     Inr [Tag (str ''a'') [] None [(str ''b'', VBoolean True)] [] False]"
proof -
  have pt1: "parseTagLine s (str ''a[b=\"c'') =
      Inr \<lparr>tl_name = str ''a'', tl_classes = [], tl_id = None,
           tl_attributes = [(str ''b'', VString (str ''c''))], tl_content = None\<rparr>" for s
    by (simp add: tagline_eval str_def)
  have pt2: "parseTagLine s (str ''a[b'') =
      Inr \<lparr>tl_name = str ''a'', tl_classes = [], tl_id = None,
           tl_attributes = [(str ''b'', VBoolean True)], tl_content = None\<rparr>" for s
    by (simp add: tagline_eval str_def)
  have tr: "trim (str ''a[b=\"c'') = str ''a[b=\"c''" "trim (str ''a[b'') = str ''a[b''"
    by (simp_all add: str_def trim_def trimStart_def trimEnd_def isWhiteSpace_def)
  from parseSource_tag_line [OF _ _ tr(1) _ _ _ _ pt1] parseSource_tag_line [OF _ _ tr(2) _ _ _ _ pt2]
  show ?thesis
    by (simp add: str_def startsWithLetter_def isAsciiLetter_def tagNode_def selfClosingNames_def)
qed

text \<open>
  C5. The claim asks for an \<open>InputTooLarge\<close> error on every input whose byte length
  exceeds 10 MiB. The constructor accepts the input of 5242881 characters U+00E9,
  which takes 10485762 bytes in UTF-8: it compares \<open>input.length\<close>, the number of
  UTF-16 code units, with \<open>10 * 1024 * 1024\<close>, where its own comment, \<open>10MB limit\<close>,
  and its own message, \<open>file size exceeds 10MB limit\<close>, speak of the size of the file.
\<close>

theorem C5_byte_length_unchecked:
  "utf8_length (replicate 5242881 233) > 10 * 1024 * 1024 \<and>
   constructor (replicate 5242881 233) =
     Inr \<lparr>input = replicate 5242881 233, position = 0, line = 1, column = 1\<rparr>"
  by (simp add: utf8_length_def utf8_unit_bytes_def sum_list_replicate constructor_def
        trim_def trimStart_def trimEnd_def isWhiteSpace_def)


text \<open>
  C6, as amended. The indentation of a line is its number of leading spaces, and a
  line is blank if it is empty once trimmed. For every bare \<open>|\<close> line at indentation
  \<open>k\<close> that child collection reads, the parser consumes every following line that is
  empty or indented by more than \<open>k\<close>, trims each such line, drops the blank ones, and
  joins the kept lines with line feeds into exactly one \<open>Text\<close> node; it stops at the
  first line that is not empty and is indented by \<open>k\<close> or less, be it blank or not,
  without consuming that line, and the caller goes on there.

  The first part of the theorem is \<open>parseMultilineText\<close> at base indentation \<open>k\<close>, from
  any state: \<open>kept_lines k r\<close> are the lines that it keeps of the unread input \<open>r\<close> and
  \<open>after_block k r\<close> is the input from the line on at which it stops. The second part
  is the loop of \<open>parseChildren\<close> at a bare \<open>|\<close> line deeper than the parent
  indentation \<open>p\<close>: it adds the one \<open>Text\<close> node and then the nodes of the input from the
  line on at which the block stopped.
\<close>

theorem C6_multiline_block:
  "(\<exists>s'. parseMultilineText k s = Inr (join [10] (kept_lines k (rest s)), s') \<and>
      input s' = input s \<and> rest s' = after_block (int k) (rest s)) \<and>
   (trim (first_line (rest s)) = [124] \<and> p < int (indent_of (rest s)) \<longrightarrow>
      (\<exists>s'. parseChildren_loop p kids s =
         Inr (kids @ Text (join [10] (kept_lines (indent_of (rest s)) (next_lines (rest s)))) #
                nodes p (after_block (int (indent_of (rest s))) (next_lines (rest s))), s') \<and>
         input s' = input s \<and> rest s' = after_block p (rest s)))"
proof (intro conjI impI)
  show "\<exists>s'. parseMultilineText k s = Inr (join [10] (kept_lines k (rest s)), s') \<and>
      input s' = input s \<and> rest s' = after_block (int k) (rest s)"
    by (rule parseMultilineText_lines)
next
  assume a: "trim (first_line (rest s)) = [124] \<and> p < int (indent_of (rest s))"
  then have ne: "rest s \<noteq> [] \<and> hd (rest s) \<noteq> 10"
    by (intro first_line_nonblank) simp
  have "line_step (rest s) =
      ([Text (join [10] (kept_lines (indent_of (rest s)) (next_lines (rest s))))],
       after_block (int (indent_of (rest s))) (next_lines (rest s)))"
    using a by (simp add: line_step_def Let_def startsWith_def str_def)
  with a ne have "nodes p (rest s) =
      Text (join [10] (kept_lines (indent_of (rest s)) (next_lines (rest s)))) #
        nodes p (after_block (int (indent_of (rest s))) (next_lines (rest s)))"
    by (simp add: nodes_loop_nodes [of p "rest s"] loop_nodes_def)
  with nodes_run [of p kids s]
  show "\<exists>s'. parseChildren_loop p kids s =
         Inr (kids @ Text (join [10] (kept_lines (indent_of (rest s)) (next_lines (rest s)))) #
                nodes p (after_block (int (indent_of (rest s))) (next_lines (rest s))), s') \<and>
         input s' = input s \<and> rest s' = after_block p (rest s)"
    by simp
qed

text \<open>The theorem in the source of five lines \<open>|\<close>, \<open>  a\<close>, an empty line, \<open>  b\<close> and
  \<open>c\<close>: from the end of the first line \<open>parseMultilineText\<close> returns \<open>a\<close> and \<open>b\<close> on
  two lines and stops before \<open>c\<close>, and the loop returns this text and then the nodes
  of \<open>c\<close>.\<close>

theorem C6_multiline_block_witness:
  "(\<exists>s'. parseMultilineText 0
       \<lparr>input = str ''|\<newline>  a\<newline>\<newline>  b\<newline>c'', position = 1, line = 1, column = 2\<rparr>
        = Inr (str ''a\<newline>b'', s') \<and> rest s' = str ''c'') \<and>
   (\<exists>s'. parseChildren_loop (- 1) [] (start (str ''|\<newline>  a\<newline>\<newline>  b\<newline>c'')) =
       Inr (Text (str ''a\<newline>b'') # nodes (- 1) (str ''c''), s') \<and> rest s' = [])"
  using C6_multiline_block [of 0
      "\<lparr>input = str ''|\<newline>  a\<newline>\<newline>  b\<newline>c'', position = 1, line = 1, column = 2\<rparr>"
      "- 1" "[]"]
    C6_multiline_block [of 0 "start (str ''|\<newline>  a\<newline>\<newline>  b\<newline>c'')" "- 1" "[]"]
  by (simp add: nodes_eval) auto

text \<open>
  C6 as stated fails, whichever way a blank line is counted; a line of spaces only
  is blank, the parser drops it inside a block. If a blank line has an
  indentation as any other line has, an empty line, of indentation 0, ends every
  block: in the first source the empty line after \<open>a\<close> does not end the block, and \<open>b\<close>
  is part of the text. If a blank line does not count, the block of the second
  source, under a \<open>|\<close> at indentation 2, goes on to the line \<open>b\<close> at indentation 4: the
  line of one space before it ends the block, and \<open>b\<close> is parsed as a tag.
\<close>

theorem C6_counterexample:
  "parseSource (str ''|\<newline>  a\<newline>\<newline>  b'') = Inr [Text (str ''a\<newline>b'')] \<and>
   parseSource (str ''div\<newline>  |\<newline>    a\<newline> \<newline>    b'') =
     Inr [Tag (str ''div'') [] None []
            [Text (str ''a''), Tag (str ''b'') [] None [] [] False] False]"
  by (simp add: parse_eval)





section \<open>Claims about the generator\<close>




text \<open>
  C9, as amended. A tag that is not self-closing and has exactly one child, a text,
  is rendered inline on one line, as \<open><name attrs>text</name>\<close>, if the text as it is
  emitted has no line feed and is shorter than 80; the text as it is emitted is the
  content escaped or, if the name is \<open>script\<close> or \<open>style\<close> in any case of the letters,
  the content trimmed. Every other tag that is not self-closing and has children is
  rendered as a block: the opening tag, a line feed unless minifying, then every
  child in turn, rendered one level deeper unless minifying and with the tag as its
  parent, each followed by a line feed unless minifying, and the closing tag at the
  indentation of the opening tag. \<open>pieces h k\<close> is what the rendering of the node \<open>k\<close>
  adds to the buffer of the generator \<open>h\<close>, which it leaves as it is otherwise.
\<close>

theorem C9_inline_or_block:
  "(length (processedText n c) < 80 \<and> 10 \<notin> set (processedText n c) \<longrightarrow>
      generateTag g (Tag n cls i attribs [Text c] False) =
        push [indent g, str ''<'', n, generateAttributes attribs cls i, str ''>'',
              processedText n c, str ''</'', n, str ''>''] g) \<and>
   (kids \<noteq> [] \<and>
    \<not> (\<exists>c. kids = [Text c] \<and> length (processedText n c) < 80 \<and> 10 \<notin> set (processedText n c)) \<longrightarrow>
      generateTag g (Tag n cls i attribs kids False) =
        push ([indent g, str ''<'', n, generateAttributes attribs cls i, str ''>''] @ lineFeed g @
              concat (map (\<lambda>k. pieces (under n g) k @ lineFeed g) kids) @
              [indent g, str ''</'', n, str ''>'']) g) \<and>
   generateNode h k = push (pieces h k) h"
proof (intro conjI impI)
  assume "length (processedText n c) < 80 \<and> 10 \<notin> set (processedText n c)"
  then have "inlineText n [Text c] = Some (processedText n c)"
    by (simp add: inlineText_Some)
  then show "generateTag g (Tag n cls i attribs [Text c] False) =
        push [indent g, str ''<'', n, generateAttributes attribs cls i, str ''>'',
              processedText n c, str ''</'', n, str ''>''] g"
    by (simp add: Let_def)
next
  assume a: "kids \<noteq> [] \<and>
    \<not> (\<exists>c. kids = [Text c] \<and> length (processedText n c) < 80 \<and> 10 \<notin> set (processedText n c))"
  then have "inlineText n kids = None"
    by (intro inlineText_None) simp
  with a show "generateTag g (Tag n cls i attribs kids False) =
        push ([indent g, str ''<'', n, generateAttributes attribs cls i, str ''>''] @ lineFeed g @
              concat (map (\<lambda>k. pieces (under n g) k @ lineFeed g) kids) @
              [indent g, str ''</'', n, str ''>'']) g"
    by (intro generateTag_block_pieces) simp_all
next
  show "generateNode h k = push (pieces h k) h"
    by (rule generateNode_pieces)
qed

text \<open>The theorem in a new generator: the tag \<open>p\<close> with the text \<open>hi\<close> is rendered
  inline, and the tag \<open>ul\<close> with the children \<open>li\<close> and \<open>br\<close> as a block of four lines.\<close>

theorem C9_inline_or_block_witness:
  "generateTag (newGenerator noOptions) (Tag (str ''p'') [] None [] [Text (str ''hi'')] False) =
     push [[], str ''<'', str ''p'', [], str ''>'', str ''hi'', str ''</'', str ''p'', str ''>'']
       (newGenerator noOptions) \<and>
   generateTag (newGenerator noOptions)
       (Tag (str ''ul'') [] None []
          [Tag (str ''li'') [] None [] [Text (str ''a'')] False, Tag (str ''br'') [] None [] [] True]
          False) =
     push [[], str ''<'', str ''ul'', [], str ''>'', [10],
           str ''  '', str ''<'', str ''li'', [], str ''>'', str ''a'', str ''</'', str ''li'',
           str ''>'', [10],
           str ''  '', str ''<'', str ''br'', [], str '' />'', [10],
           [], str ''</'', str ''ul'', str ''>''] (newGenerator noOptions) \<and>
   generateNode (under (str ''ul'') (newGenerator noOptions))
       (Tag (str ''br'') [] None [] [] True) =
     push [str ''  '', str ''<'', str ''br'', [], str '' />'']
       (under (str ''ul'') (newGenerator noOptions))"
proof -
  let ?g = "newGenerator noOptions"
  let ?li = "Tag (str ''li'') [] None [] [Text (str ''a'')] False"
  let ?br = "Tag (str ''br'') [] None [] [] True"
  have hi: "processedText (str ''p'') (str ''hi'') = str ''hi''"
    using not_script_p
    by (simp add: processedText_def escapeHtml_chars) (simp add: escapeChar_def str_def)
  have li: "pieces (under (str ''ul'') ?g) ?li =
      [str ''  '', str ''<'', str ''li'', [], str ''>'', str ''a'', str ''</'', str ''li'', str ''>'']"
    by (rule pieces_push) (simp add: text_eval generator_eval inlineText_def numeral_2_eq_2)
  have br: "pieces (under (str ''ul'') ?g) ?br = [str ''  '', str ''<'', str ''br'', [], str '' />'']"
    by (rule pieces_push) (simp add: text_eval generator_eval numeral_2_eq_2)
  have long: "\<not> (\<exists>c. [?li, ?br] = [Text c] \<and> length (processedText (str ''ul'') c) < 80 \<and>
      10 \<notin> set (processedText (str ''ul'') c))"
    by simp
  have short: "length (str ''hi'') < 80 \<and> 10 \<notin> set (str ''hi'')"
    by (simp add: str_def)
  from C9_inline_or_block [of "str ''p''" "str ''hi''" ?g "[]" None "[]" "[?li, ?br]"
      "under (str ''ul'') ?g" ?br]
    C9_inline_or_block [of "str ''ul''" "[]" ?g "[]" None "[]" "[?li, ?br]"
      "under (str ''ul'') ?g" ?br] hi li br long short
  show ?thesis
    by (simp add: generator_eval lineFeed_def del: generateNode.simps generateTag.simps)
qed

text \<open>C9 as stated fails: a content of twenty \<open>&\<close> has no line feed and is shorter
  than 80, and the tag is rendered as a block, because the escaped text is a hundred
  characters long.\<close>

theorem C9_counterexample:
  "length (replicate 20 (38::nat)) < 80 \<and> 10 \<notin> set (replicate 20 (38::nat)) \<and>
   outputBuffer (generateTag (newGenerator noOptions)
       (Tag (str ''p'') [] None [] [Text (replicate 20 38)] False)) =
     [[], str ''<'', str ''p'', [], str ''>'', [10], str ''  '',
      concat (replicate 20 (str ''&amp;'')), [10], [], str ''</'', str ''p'', str ''>'']"
proof -
  have none: "inlineText (str ''p'') [Text (replicate 20 38)] = None"
    using not_script_p length_ampersands [of 20]
    by (simp add: inlineText_def Let_def escapeHtml_ampersands)
  have tr: "trim (replicate 20 38) = replicate 20 38"
    by (simp add: trim_def trimStart_def trimEnd_def isWhiteSpace_def)
  have one: "length (split_lines (replicate 20 38)) = 1"
    using length_split_lines [of "replicate 20 38"] by simp
  have gt: "generateText g (replicate 20 38) =
      push [indent g, concat (replicate 20 (str ''&amp;''))] g"
    if "\<not> minify (options g)" "currentParentTag g = str ''p''" for g
    using that one not_script_p tr
    by (simp add: generateText_def Let_def escapeHtml_ampersands)
  show ?thesis
    using none by (simp add: generator_eval gt) (simp add: str_def numeral_2_eq_2)
qed





end
